theory Spec2Isabelle
  imports Main "HOL-Library.Word"
begin

text \<open>
  A model of \<open>normalize_line_endings.py\<close>: the file selector \<open>should_process_file\<close>, the
  normaliser \<open>normalize_line_endings\<close> and the directory walk of \<open>main\<close>, with the parts of
  the Python library they call (the UTF-8 and latin-1 codecs, \<open>str.replace\<close>, \<open>str.lower\<close>,
  \<open>pathlib\<close>'s \<open>name\<close> and \<open>suffix\<close>, \<open>open\<close>, \<open>os.walk\<close>) and a file system to run on.
\<close>

section \<open>Text and bytes\<close>

text \<open>
  A Python \<open>bytes\<close> object is a list of 8-bit words; a Python \<open>str\<close> is a list of code
  points. File names and file texts are both of type \<open>str\<close>. \<open>str_of\<close> turns a literal
  into a \<open>str\<close>.
\<close>

type_synonym byte = "8 word"
type_synonym bytes = "byte list"
type_synonym codepoint = nat
type_synonym str = "codepoint list"

definition str_of :: "string \<Rightarrow> str" where
  "str_of = map of_char"

text \<open>
  \<open>str.encode('utf-8')\<close> with the strict error handler: one to four bytes per code point;
  \<open>None\<close> stands for \<open>UnicodeEncodeError\<close>, raised on a surrogate (a list element above
  0x10FFFF is no code point of a Python \<open>str\<close> and is refused as well).
\<close>

definition is_surrogate :: "codepoint \<Rightarrow> bool" where
  "is_surrogate c = (0xD800 \<le> c \<and> c \<le> 0xDFFF)"

definition encode_cp :: "codepoint \<Rightarrow> bytes option" where
  "encode_cp c =
    (if c < 0x80 then Some [of_nat c]
     else if c < 0x800 then
       Some [of_nat (0xC0 + c div 64), of_nat (0x80 + c mod 64)]
     else if c < 0x10000 then
       (if is_surrogate c then None
        else Some [of_nat (0xE0 + c div 4096), of_nat (0x80 + c div 64 mod 64),
                   of_nat (0x80 + c mod 64)])
     else if c < 0x110000 then
       Some [of_nat (0xF0 + c div 262144), of_nat (0x80 + c div 4096 mod 64),
             of_nat (0x80 + c div 64 mod 64), of_nat (0x80 + c mod 64)]
     else None)"

fun utf8_encode :: "str \<Rightarrow> bytes option" where
  "utf8_encode [] = Some []"
| "utf8_encode (c # cs) =
    (case encode_cp c of
       None \<Rightarrow> None
     | Some bs \<Rightarrow> (case utf8_encode cs of None \<Rightarrow> None | Some r \<Rightarrow> Some (bs @ r)))"

text \<open>
  \<open>bytes.decode('utf-8')\<close> with the strict error handler; \<open>None\<close> stands for
  \<open>UnicodeDecodeError\<close>. The lead byte fixes the length of the sequence; overlong forms
  (lead bytes C0, C1, and E0 or F0 with a small second byte), surrogates (ED with a second
  byte from A0 on) and values above 0x10FFFF are refused, as are truncated sequences.
\<close>

definition cont :: "nat \<Rightarrow> bool" where
  "cont n = (0x80 \<le> n \<and> n \<le> 0xBF)"

definition second_ok :: "nat \<Rightarrow> nat \<Rightarrow> bool" where
  "second_ok n0 n1 =
     (if n0 = 0xE0 then 0xA0 \<le> n1 \<and> n1 \<le> 0xBF
      else if n0 = 0xED then 0x80 \<le> n1 \<and> n1 \<le> 0x9F
      else if n0 = 0xF0 then 0x90 \<le> n1 \<and> n1 \<le> 0xBF
      else if n0 = 0xF4 then 0x80 \<le> n1 \<and> n1 \<le> 0x8F
      else cont n1)"

fun utf8_decode :: "bytes \<Rightarrow> str option" where
  "utf8_decode [] = Some []"
| "utf8_decode (b0 # bs) =
    (let n0 = unat b0 in
     if n0 < 0x80 then map_option ((#) n0) (utf8_decode bs)
     else if 0xC2 \<le> n0 \<and> n0 \<le> 0xDF then
       (case bs of
          b1 # r \<Rightarrow>
            if cont (unat b1)
            then map_option ((#) ((n0 - 0xC0) * 64 + (unat b1 - 0x80))) (utf8_decode r)
            else None
        | _ \<Rightarrow> None)
     else if 0xE0 \<le> n0 \<and> n0 \<le> 0xEF then
       (case bs of
          b1 # b2 # r \<Rightarrow>
            if second_ok n0 (unat b1) \<and> cont (unat b2)
            then map_option
                   ((#) ((n0 - 0xE0) * 4096 + (unat b1 - 0x80) * 64 + (unat b2 - 0x80)))
                   (utf8_decode r)
            else None
        | _ \<Rightarrow> None)
     else if 0xF0 \<le> n0 \<and> n0 \<le> 0xF4 then
       (case bs of
          b1 # b2 # b3 # r \<Rightarrow>
            if second_ok n0 (unat b1) \<and> cont (unat b2) \<and> cont (unat b3)
            then map_option
                   ((#) ((n0 - 0xF0) * 262144 + (unat b1 - 0x80) * 4096
                         + (unat b2 - 0x80) * 64 + (unat b3 - 0x80)))
                   (utf8_decode r)
            else None
        | _ \<Rightarrow> None)
     else None)"

text \<open>\<open>bytes.decode('latin-1')\<close>: every byte is the code point of the same value.\<close>

definition latin1_decode :: "bytes \<Rightarrow> str option" where
  "latin1_decode bs = Some (map unat bs)"

text \<open>
  \<open>s.replace(old, new)\<close>: a scan from the left that replaces each occurrence of \<open>old\<close> and
  goes on behind it. For an empty \<open>old\<close> Python puts \<open>new\<close> before every element and at the
  end.
\<close>

function replace :: "str \<Rightarrow> str \<Rightarrow> str \<Rightarrow> str" where
  "replace [] old new = (if old = [] then new else [])"
| "replace (c # cs) old new =
     (if old = [] then new @ c # replace cs old new
      else if take (length old) (c # cs) = old
        then new @ replace (drop (length old) (c # cs)) old new
      else c # replace cs old new)"
  by pat_completeness auto
termination
  by (relation "measure (\<lambda>(s, old, new). length s)") auto

text \<open>
  \<open>str.lower\<close>. The result is only ever compared with the ASCII strings of \<open>EXTENSIONS\<close>, so
  the table holds the code points whose lower case contains an ASCII letter: the letters A
  to Z, the Kelvin sign U+212A (lower case \<open>k\<close>) and U+0130 (lower case \<open>i\<close> followed by
  U+0307). Every other code point above 0x7F has a lower case above 0x7F and is kept as it
  is.
\<close>

definition lower_cp :: "codepoint \<Rightarrow> str" where
  "lower_cp c =
     (if 0x41 \<le> c \<and> c \<le> 0x5A then [c + 0x20]
      else if c = 0x212A then [0x6B]
      else if c = 0x130 then [0x69, 0x307]
      else [c])"

definition lower :: "str \<Rightarrow> str" where
  "lower s = concat (map lower_cp s)"

definition startswith :: "str \<Rightarrow> str \<Rightarrow> bool" where
  "startswith s pre = (take (length pre) s = pre)"

fun rfind :: "str \<Rightarrow> codepoint \<Rightarrow> int" where
  "rfind [] c = - 1"
| "rfind (x # xs) c =
     (let i = rfind xs c in if 0 \<le> i then i + 1 else if x = c then 0 else - 1)"

text \<open>
  A \<open>pathlib\<close> path is the list of its components. \<open>name\<close> is the last component (empty for
  the empty path); \<open>suffix\<close> is the part of the name from its last dot on when that dot is
  neither the first nor the last character of the name, and empty otherwise (as in CPython
  up to 3.13: \<open>i = name.rfind('.')\<close>, \<open>0 < i < len(name) - 1\<close>).
\<close>

type_synonym path = "str list"

definition name :: "path \<Rightarrow> str" where
  "name p = (if p = [] then [] else last p)"

definition suffix :: "path \<Rightarrow> str" where
  "suffix p =
     (let nm = name p; i = rfind nm 0x2E in
      if 0 < i \<and> i < int (length nm) - 1 then drop (nat i) nm else [])"

definition EXTENSIONS :: "str list" where
  "EXTENSIONS = map str_of
     [''.js'', ''.jsx'', ''.ts'', ''.tsx'',
      ''.py'', ''.sh'', ''.bash'',
      ''.json'', ''.jsonc'',
      ''.css'', ''.scss'', ''.sass'', ''.less'',
      ''.html'', ''.htm'', ''.xml'', ''.svg'',
      ''.md'', ''.markdown'', ''.txt'',
      ''.yml'', ''.yaml'',
      ''.env'', ''.gitignore'', ''.gitattributes'',
      ''.sql'']"

definition EXCLUDED_DIRS :: "str list" where
  "EXCLUDED_DIRS = map str_of
     [''node_modules'', ''.git'', ''dist'', ''build'', ''__pycache__'',
      ''.next'', ''out'', ''coverage'', ''.cache'', ''venv'', ''env'']"

definition should_process_file :: "path \<Rightarrow> bool" where
  "should_process_file file_path =
     (if lower (suffix file_path) \<notin> set EXTENSIONS then
        (if suffix file_path = [] \<and> startswith (name file_path) (str_of ''.'')
         then name file_path \<in> set (map str_of [''.env'', ''.gitignore'', ''.gitattributes''])
         else False)
      else True)"


section \<open>The file system and the console\<close>

text \<open>
  The exceptions the body of \<open>normalize_line_endings\<close> can raise; all are subclasses of
  \<open>Exception\<close>.

  A regular file has its permission bits, a modification count (raised whenever the file
  is opened for writing, which truncates it) and its contents. The directories form a tree
  of names, which the program never changes; regular files are found by their path. A name
  listed in a directory need not have a file behind it (a dangling link): opening it raises
  \<open>FileNotFoundError\<close>. What the program prints is kept as a list of messages, one
  constructor per \<open>print\<close> statement (the summary block is one message).
\<close>

datatype exn = FileNotFoundError | IsADirectoryError | PermissionError | UnicodeEncodeError

record regfile =
  readable :: bool
  writable :: bool
  mtime :: nat
  contents :: bytes

datatype dirtree = Dir (subdirs: "(str \<times> dirtree) list") (filenames: "str list")

datatype msg =
    SkipEncoding path
  | ErrorProcessing path exn
  | NoSuchDirectory path
  | Scanning path
  | Extensions
  | Excluding
  | Normalized path
  | Summary int int int

record world =
  tree :: dirtree
  files :: "path \<Rightarrow> regfile option"
  stdout :: "msg list"

definition print :: "msg \<Rightarrow> world \<Rightarrow> world" where
  "print m w = w\<lparr>stdout := stdout w @ [m]\<rparr>"

fun subtree :: "path \<Rightarrow> dirtree \<Rightarrow> dirtree option" where
  "subtree [] d = Some d"
| "subtree (x # xs) (Dir ds fs) =
     (case map_of ds x of None \<Rightarrow> None | Some sub \<Rightarrow> subtree xs sub)"

definition is_dir :: "path \<Rightarrow> world \<Rightarrow> bool" where
  "is_dir p w = (subtree p (tree w) \<noteq> None)"

definition path_exists :: "path \<Rightarrow> world \<Rightarrow> bool" where
  "path_exists p w = (is_dir p w \<or> files w p \<noteq> None)"

text \<open>
  \<open>open(p, 'rb')\<close> followed by \<open>read()\<close>, and \<open>open(p, 'wb')\<close> followed by \<open>write(data)\<close>.
  Opening for writing truncates the file. It is only ever called on a path that has just
  been read, so the creation of a missing file is not modelled.
\<close>

definition open_rb :: "path \<Rightarrow> world \<Rightarrow> exn + regfile" where
  "open_rb p w =
     (case files w p of
        None \<Rightarrow> if is_dir p w then Inl IsADirectoryError else Inl FileNotFoundError
      | Some f \<Rightarrow> if readable f then Inr f else Inl PermissionError)"

definition open_wb :: "path \<Rightarrow> world \<Rightarrow> exn + world" where
  "open_wb p w =
     (case files w p of
        None \<Rightarrow> if is_dir p w then Inl IsADirectoryError else Inl FileNotFoundError
      | Some f \<Rightarrow>
          if writable f
          then Inr (w\<lparr>files := (files w)(p \<mapsto> f\<lparr>mtime := mtime f + 1, contents := []\<rparr>)\<rparr>)
          else Inl PermissionError)"

definition write_bytes :: "path \<Rightarrow> bytes \<Rightarrow> world \<Rightarrow> world" where
  "write_bytes p data w =
     (case files w p of
        None \<Rightarrow> w
      | Some f \<Rightarrow> w\<lparr>files := (files w)(p \<mapsto> f\<lparr>contents := contents f @ data\<rparr>)\<rparr>)"

section \<open>normalize\_line\_endings\<close>

text \<open>
  \<open>decode_text\<close> is the decoding cascade (lines 50 to 57 of the source: UTF-8, then latin-1,
  then give up), \<open>convert\<close> the two substitutions of line 63, \<open>normalize_try\<close> the body of the
  \<open>try\<close> statement, which returns the exception it raises together with the state it
  leaves, and \<open>normalize_line_endings\<close> adds the handler.
\<close>

definition decode_text :: "bytes \<Rightarrow> str option" where
  "decode_text content =
     (case utf8_decode content of
        Some text \<Rightarrow> Some text
      | None \<Rightarrow> (case latin1_decode content of Some text \<Rightarrow> Some text | None \<Rightarrow> None))"

definition convert :: "str \<Rightarrow> str" where
  "convert text = replace (replace text [0x0D, 0x0A] [0x0A]) [0x0D] [0x0A]"

definition normalize_try :: "path \<Rightarrow> world \<Rightarrow> (exn + bool) \<times> world" where
  "normalize_try file_path w =
     (case open_rb file_path w of
        Inl e \<Rightarrow> (Inl e, w)
      | Inr f \<Rightarrow>
          (case decode_text (contents f) of
             None \<Rightarrow> (Inr False, print (SkipEncoding file_path) w)
           | Some original_text \<Rightarrow>
               let text = convert original_text in
               if text \<noteq> original_text then
                 (case open_wb file_path w of
                    Inl e \<Rightarrow> (Inl e, w)
                  | Inr w1 \<Rightarrow>
                      (case utf8_encode text of
                         None \<Rightarrow> (Inl UnicodeEncodeError, w1)
                       | Some data \<Rightarrow> (Inr True, write_bytes file_path data w1)))
               else (Inr False, w)))"

definition normalize_line_endings :: "path \<Rightarrow> world \<Rightarrow> bool \<times> world" where
  "normalize_line_endings file_path w =
     (case normalize_try file_path w of
        (Inl e, w') \<Rightarrow> (False, print (ErrorProcessing file_path e) w')
      | (Inr changed, w') \<Rightarrow> (changed, w'))"

section \<open>main\<close>

text \<open>
  \<open>walk\<close> lists the triples \<open>(root, dirs, files)\<close> the loop of \<open>main\<close> receives from
  \<open>os.walk\<close>, top down, where \<open>dirs\<close> is the list after the loop body has removed the excluded
  names from it, so that \<open>os.walk\<close> descends into the remaining ones only. \<open>os.walk\<close> yields
  nothing when the start path is not a directory. The start directory is given as a
  resolved path; \<open>main\<close> returns the exit status of the process.
\<close>

function walk :: "path \<Rightarrow> dirtree \<Rightarrow> (path \<times> str list \<times> str list) list" where
  "walk dirpath (Dir ds fs) =
     (let dirs = filter (\<lambda>d. d \<notin> set EXCLUDED_DIRS) (map fst ds) in
      (dirpath, dirs, fs) #
      concat (map (\<lambda>d. case map_of ds d of
                          None \<Rightarrow> []
                        | Some sub \<Rightarrow> walk (dirpath @ [d]) sub) dirs))"
  by pat_completeness auto
termination
proof (relation "measure (\<lambda>(dirpath, d). size d)")
  show "wf (measure (\<lambda>(dirpath, d). size d))" by simp
next
  fix dirpath :: path and ds :: "(str \<times> dirtree) list" and fs :: "str list"
    and dirs d sub
  assume "map_of ds d = Some sub"
  then have "(d, sub) \<in> set ds" by (rule map_of_SomeD)
  then have "size sub < Suc (size_list (size_prod (\<lambda>_. 0) size) ds)"
    by (induction ds) auto
  then show "((dirpath @ [d], sub), (dirpath, Dir ds fs)) \<in> measure (\<lambda>(dirpath, d). size d)"
    by simp
qed

definition os_walk :: "path \<Rightarrow> world \<Rightarrow> (path \<times> str list \<times> str list) list" where
  "os_walk dirpath w = (case subtree dirpath (tree w) of None \<Rightarrow> [] | Some d \<Rightarrow> walk dirpath d)"

record run_state =
  world :: world
  processed_count :: int
  changed_count :: int

definition visit_file :: "path \<Rightarrow> path \<Rightarrow> run_state \<Rightarrow> run_state" where
  "visit_file start_dir file_path s =
     (if should_process_file file_path then
        (let s1 = s\<lparr>processed_count := processed_count s + 1\<rparr>;
             relative_path = drop (length start_dir) file_path
         in case normalize_line_endings file_path (world s1) of
              (True, w') \<Rightarrow>
                s1\<lparr>world := print (Normalized relative_path) w',
                   changed_count := changed_count s1 + 1\<rparr>
            | (False, w') \<Rightarrow> s1\<lparr>world := w'\<rparr>)
      else s)"

definition visit_dir :: "path \<Rightarrow> path \<times> str list \<times> str list \<Rightarrow> run_state \<Rightarrow> run_state" where
  "visit_dir start_dir =
     (\<lambda>(root, dirs, files) s.
        fold (\<lambda>filename. visit_file start_dir (root @ [filename])) files s)"

definition main_loop :: "path \<Rightarrow> world \<Rightarrow> run_state" where
  "main_loop start_dir w =
     fold (visit_dir start_dir) (os_walk start_dir w)
       \<lparr>world = w, processed_count = 0, changed_count = 0\<rparr>"

definition main :: "path \<Rightarrow> world \<Rightarrow> int \<times> world" where
  "main start_dir w =
     (if \<not> path_exists start_dir w then (1, print (NoSuchDirectory start_dir) w)
      else
        let w1 = print (Scanning start_dir) w;
            w2 = print Extensions w1;
            w3 = print Excluding w2;
            s = main_loop start_dir w3
        in (0, print (Summary (processed_count s) (changed_count s)
                        (processed_count s - changed_count s)) (world s)))"


section \<open>Calls that raise outside the handler\<close>

text \<open>
  The functions above describe a run on a console that prints every line and a start path
  whose status can be read. Two calls of the source can raise where nothing catches the
  exception: \<open>print\<close> raises \<open>UnicodeEncodeError\<close> when the encoding of the console cannot
  encode the text (standard output uses the strict error handler), and \<open>Path.exists\<close>
  raises \<open>PermissionError\<close> when the status of the path cannot be read (CPython up to 3.13
  re-raises every \<open>OSError\<close> but the ones that mean "no such file"). The functions of this
  section are the same code with these two calls able to raise: an exception raised by
  \<open>print\<close> inside the handler of \<open>normalize_line_endings\<close>, in the loop of \<open>main\<close> or
  around it leaves \<open>main\<close> and ends the process with a traceback and status 1.

  \<open>msg_text\<close> keeps the code points of a printed line that decide whether it can be
  encoded: the symbol the format string starts with, and the characters of the paths put
  into it. The remaining characters of every line are ASCII (fixed words, digits, and the
  text of the exception, in which the file name is escaped). The lines of the summary block
  are one message; the only line of the block that is not ASCII holds the symbol.

  The skip branch inside \<open>normalize_try\<close> is never taken (\<open>decode_text\<close> always returns a
  text), so its \<open>print\<close> is left as it is.
\<close>

datatype encoding = UTF8 | ASCII

record env =
  console :: encoding
  no_access :: "path list"

fun msg_text :: "msg \<Rightarrow> str" where
  "msg_text (SkipEncoding p) = 0x26A0 # concat p"
| "msg_text (ErrorProcessing p e) = 0x274C # concat p"
| "msg_text (NoSuchDirectory p) = concat p"
| "msg_text (Scanning p) = 0x1F50D # concat p"
| "msg_text Extensions = 0x1F4DD # concat EXTENSIONS"
| "msg_text Excluding = 0x1F6AB # concat EXCLUDED_DIRS"
| "msg_text (Normalized p) = 0x2705 # concat p"
| "msg_text (Summary n c u) = [0x1F4CA]"

definition ascii_encode :: "str \<Rightarrow> bytes option" where
  "ascii_encode s = (if list_all (\<lambda>c. c < 0x80) s then Some (map of_nat s) else None)"

definition can_print :: "env \<Rightarrow> msg \<Rightarrow> bool" where
  "can_print ev m =
     (case console ev of
        UTF8 \<Rightarrow> utf8_encode (msg_text m) \<noteq> None
      | ASCII \<Rightarrow> ascii_encode (msg_text m) \<noteq> None)"

definition print_io :: "env \<Rightarrow> msg \<Rightarrow> world \<Rightarrow> exn \<times> world + world" where
  "print_io ev m w =
     (if can_print ev m then Inr (print m w) else Inl (UnicodeEncodeError, w))"

definition exists_io :: "env \<Rightarrow> path \<Rightarrow> world \<Rightarrow> exn \<times> world + bool" where
  "exists_io ev p w =
     (if p \<in> set (no_access ev) then Inl (PermissionError, w) else Inr (path_exists p w))"

definition normalize_line_endings_io ::
  "env \<Rightarrow> path \<Rightarrow> world \<Rightarrow> exn \<times> world + bool \<times> world" where
  "normalize_line_endings_io ev file_path w =
     (case normalize_try file_path w of
        (Inl e, w') \<Rightarrow>
          (case print_io ev (ErrorProcessing file_path e) w' of
             Inl x \<Rightarrow> Inl x
           | Inr w'' \<Rightarrow> Inr (False, w''))
      | (Inr changed, w') \<Rightarrow> Inr (changed, w'))"

definition visit_file_io ::
  "env \<Rightarrow> path \<Rightarrow> path \<Rightarrow> run_state \<Rightarrow> exn \<times> world + run_state" where
  "visit_file_io ev start_dir file_path s =
     (if should_process_file file_path then
        (let s1 = s\<lparr>processed_count := processed_count s + 1\<rparr>;
             relative_path = drop (length start_dir) file_path
         in case normalize_line_endings_io ev file_path (world s1) of
              Inl x \<Rightarrow> Inl x
            | Inr (True, w') \<Rightarrow>
                (case print_io ev (Normalized relative_path) w' of
                   Inl x \<Rightarrow> Inl x
                 | Inr w'' \<Rightarrow>
                     Inr (s1\<lparr>world := w'', changed_count := changed_count s1 + 1\<rparr>))
            | Inr (False, w') \<Rightarrow> Inr (s1\<lparr>world := w'\<rparr>))
      else Inr s)"

text \<open>A \<open>for\<close> loop whose body can raise: the first exception ends the loop.\<close>

fun foreach :: "('a \<Rightarrow> 's \<Rightarrow> 'e + 's) \<Rightarrow> 'a list \<Rightarrow> 's \<Rightarrow> 'e + 's" where
  "foreach f [] s = Inr s"
| "foreach f (x # xs) s = (case f x s of Inl e \<Rightarrow> Inl e | Inr s' \<Rightarrow> foreach f xs s')"

definition visit_dir_io ::
  "env \<Rightarrow> path \<Rightarrow> path \<times> str list \<times> str list \<Rightarrow> run_state \<Rightarrow> exn \<times> world + run_state" where
  "visit_dir_io ev start_dir =
     (\<lambda>(root, dirs, files) s.
        foreach (\<lambda>filename. visit_file_io ev start_dir (root @ [filename])) files s)"

definition main_loop_io :: "env \<Rightarrow> path \<Rightarrow> world \<Rightarrow> exn \<times> world + run_state" where
  "main_loop_io ev start_dir w =
     foreach (visit_dir_io ev start_dir) (os_walk start_dir w)
       \<lparr>world = w, processed_count = 0, changed_count = 0\<rparr>"

text \<open>
  How the process ends: \<open>Exited n\<close> by \<open>sys.exit(n)\<close> or by reaching the end of the script
  (\<open>n = 0\<close>), \<open>Uncaught e\<close> by an exception nothing caught, for which the interpreter prints a
  traceback on standard error and exits with status 1.
\<close>

datatype outcome = Exited int world | Uncaught exn world

fun exit_code :: "outcome \<Rightarrow> int" where
  "exit_code (Exited n w) = n"
| "exit_code (Uncaught e w) = 1"

fun final_world :: "outcome \<Rightarrow> world" where
  "final_world (Exited n w) = w"
| "final_world (Uncaught e w) = w"

definition main_io :: "env \<Rightarrow> path \<Rightarrow> world \<Rightarrow> outcome" where
  "main_io ev start_dir w =
     (case exists_io ev start_dir w of
        Inl (e, w0) \<Rightarrow> Uncaught e w0
      | Inr False \<Rightarrow>
          (case print_io ev (NoSuchDirectory start_dir) w of
             Inl (e, w0) \<Rightarrow> Uncaught e w0
           | Inr w0 \<Rightarrow> Exited 1 w0)
      | Inr True \<Rightarrow>
          (case print_io ev (Scanning start_dir) w of
             Inl (e, w0) \<Rightarrow> Uncaught e w0
           | Inr w1 \<Rightarrow>
          (case print_io ev Extensions w1 of
             Inl (e, w0) \<Rightarrow> Uncaught e w0
           | Inr w2 \<Rightarrow>
          (case print_io ev Excluding w2 of
             Inl (e, w0) \<Rightarrow> Uncaught e w0
           | Inr w3 \<Rightarrow>
          (case main_loop_io ev start_dir w3 of
             Inl (e, w0) \<Rightarrow> Uncaught e w0
           | Inr s \<Rightarrow>
          (case print_io ev (Summary (processed_count s) (changed_count s)
                              (processed_count s - changed_count s)) (world s) of
             Inl (e, w0) \<Rightarrow> Uncaught e w0
           | Inr w4 \<Rightarrow> Exited 0 w4))))))"

section \<open>An example tree\<close>

text \<open>
  A small tree the closed examples below run on: a locked file, a file with mixed line
  endings, a file that is not valid UTF-8, a file with line feeds only, and a file under an
  excluded directory.
\<close>

definition rw_file :: "bytes \<Rightarrow> regfile" where
  "rw_file c = \<lparr>readable = True, writable = True, mtime = 0, contents = c\<rparr>"

definition demo_files :: "(path \<times> regfile) list" where
  "demo_files =
     [([str_of ''a.txt''], rw_file [0x61, 0x0D, 0x0A, 0x62, 0x0D, 0x63, 0x0A]),
      ([str_of ''locked.md''], (rw_file [0x0D])\<lparr>readable := False\<rparr>),
      ([str_of ''latin.txt''], rw_file [0xE9, 0x0D]),
      ([str_of ''clean.py''], rw_file [0x78, 0x0A]),
      ([str_of ''node_modules'', str_of ''x.js''], rw_file [0x79, 0x0D, 0x0A])]"

definition demo :: world where
  "demo =
     \<lparr>tree = Dir [(str_of ''node_modules'', Dir [] [str_of ''x.js''])]
               [str_of ''locked.md'', str_of ''a.txt'', str_of ''latin.txt'',
                str_of ''clean.py''],
      files = map_of demo_files,
      stdout = []\<rparr>"

text \<open>
  Two trees whose file names hold the lone surrogate U+DC80 (what \<open>os.walk\<close> returns for a
  name with a byte that is not valid UTF-8): one with a locked file of such a name followed
  by a file with CRLF line endings, one with a writable file of such a name. And three
  environments: a UTF-8 console, an ASCII console, and a UTF-8 console with a start path
  whose status cannot be read.
\<close>

definition world_of :: "(str \<times> regfile) list \<Rightarrow> world" where
  "world_of fs =
     \<lparr>tree = Dir [] (map fst fs), files = map_of (map (\<lambda>(n, f). ([n], f)) fs), stdout = []\<rparr>"

definition locked_world :: world where
  "locked_world =
     world_of [(0xDC80 # str_of ''.md'', (rw_file [0x0D])\<lparr>readable := False\<rparr>),
               (str_of ''a.txt'', rw_file [0x61, 0x0D, 0x0A])]"

definition surrogate_world :: world where
  "surrogate_world = world_of [(0xDC80 # str_of ''.txt'', rw_file [0x61, 0x0D, 0x0A])]"

definition utf8_console :: env where
  "utf8_console = \<lparr>console = UTF8, no_access = []\<rparr>"

definition ascii_console :: env where
  "ascii_console = \<lparr>console = ASCII, no_access = []\<rparr>"

definition no_access_root :: env where
  "no_access_root = \<lparr>console = UTF8, no_access = [[]]\<rparr>"

section \<open>Auxiliary functions of the specification\<close>

text \<open>
  The first substitution of \<open>convert\<close>, written as a scan of its own: a carriage return
  followed by a line feed becomes one line feed, everything else is kept.
\<close>

fun crlf_to_lf :: "str \<Rightarrow> str" where
  "crlf_to_lf [] = []"
| "crlf_to_lf [c] = [c]"
| "crlf_to_lf (c # d # cs) =
     (if c = 0x0D \<and> d = 0x0A then 0x0A # crlf_to_lf cs else c # crlf_to_lf (d # cs))"

text \<open>
  The line terminators of a text, as the specification counts them: a CRLF pair is one
  terminator, a carriage return not followed by a line feed is one, a line feed is one.
\<close>

fun line_terminators :: "nat list \<Rightarrow> nat" where
  "line_terminators [] = 0"
| "line_terminators [c] = (if c = 0x0D \<or> c = 0x0A then 1 else 0)"
| "line_terminators (c # d # cs) =
     (if c = 0x0D \<and> d = 0x0A then 1 + line_terminators cs
      else if c = 0x0D \<or> c = 0x0A then 1 + line_terminators (d # cs)
      else line_terminators (d # cs))"

text \<open>
  The same count as a scan that remembers whether the previous element was a carriage
  return; it is the form the proofs about encoded texts use.
\<close>

fun lt_from :: "bool \<Rightarrow> nat list \<Rightarrow> nat" where
  "lt_from p [] = 0"
| "lt_from p (x # xs) =
     (if x = 0x0A then (if p then 0 else 1) + lt_from False xs
      else if x = 0x0D then 1 + lt_from True xs
      else lt_from False xs)"

text \<open>The paths of the files the loop of \<open>main\<close> visits, in order.\<close>

definition visited_files :: "path \<Rightarrow> world \<Rightarrow> path list" where
  "visited_files start_dir w =
     concat (map (\<lambda>(root, dirs, files). map (\<lambda>filename. root @ [filename]) files)
               (os_walk start_dir w))"

text \<open>A file is settled when normalising it reports no change and rewrites nothing.\<close>

definition settled :: "path \<Rightarrow> world \<Rightarrow> bool" where
  "settled p w =
     (fst (normalize_line_endings p w) = False
      \<and> files (snd (normalize_line_endings p w)) p = files w p)"

text \<open>The lines printed between an earlier state and a later one.\<close>

definition printed :: "world \<Rightarrow> world \<Rightarrow> msg list" where
  "printed w w' = drop (length (stdout w)) (stdout w')"

section \<open>The UTF-8 codec\<close>


lemma unat_byte: "n < 256 \<Longrightarrow> unat (of_nat n :: byte) = n"
  by (simp add: unat_of_nat)

lemma mod64_le: "(n::nat) mod 64 \<le> 63"
  using pos_mod_bound [of 64 "int n"] by simp








lemma digits2:
  assumes "l \<le> (63::nat)"
  shows "(h * 64 + l) div 64 = h" "(h * 64 + l) mod 64 = l"
  using assms by simp_all

lemma digits3:
  assumes "m \<le> (63::nat)" "l \<le> (63::nat)"
  shows "(h * 4096 + m * 64 + l) div 4096 = h"
    "(h * 4096 + m * 64 + l) div 64 mod 64 = m"
    "(h * 4096 + m * 64 + l) mod 64 = l"
proof -
  have e: "h * 4096 + m * 64 + l = (h * 64 + m) * 64 + l" by simp
  show "(h * 4096 + m * 64 + l) mod 64 = l" unfolding e using assms(2) by (rule digits2)
  have d: "(h * 4096 + m * 64 + l) div 64 = h * 64 + m"
    unfolding e using assms(2) by (rule digits2)
  show "(h * 4096 + m * 64 + l) div 64 mod 64 = m"
    unfolding d using assms(1) by (rule digits2)
  have "(h * 4096 + m * 64 + l) div 4096 = (h * 4096 + m * 64 + l) div 64 div 64"
    by (simp add: div_mult2_eq)
  also have "\<dots> = h" unfolding d using assms(1) by (rule digits2)
  finally show "(h * 4096 + m * 64 + l) div 4096 = h" .
qed

lemma digits4:
  assumes "k \<le> (63::nat)" "m \<le> (63::nat)" "l \<le> (63::nat)"
  shows "(h * 262144 + k * 4096 + m * 64 + l) div 262144 = h"
    "(h * 262144 + k * 4096 + m * 64 + l) div 4096 mod 64 = k"
    "(h * 262144 + k * 4096 + m * 64 + l) div 64 mod 64 = m"
    "(h * 262144 + k * 4096 + m * 64 + l) mod 64 = l"
proof -
  have e: "h * 262144 + k * 4096 + m * 64 + l = (h * 64 + k) * 4096 + m * 64 + l" by simp
  show "(h * 262144 + k * 4096 + m * 64 + l) mod 64 = l"
    unfolding e using assms(2,3) by (rule digits3)
  show "(h * 262144 + k * 4096 + m * 64 + l) div 64 mod 64 = m"
    unfolding e using assms(2,3) by (rule digits3)
  have d: "(h * 262144 + k * 4096 + m * 64 + l) div 4096 = h * 64 + k"
    unfolding e using assms(2,3) by (rule digits3)
  show "(h * 262144 + k * 4096 + m * 64 + l) div 4096 mod 64 = k"
    unfolding d using assms(1) by (rule digits2)
  have "(h * 262144 + k * 4096 + m * 64 + l) div 262144
        = (h * 262144 + k * 4096 + m * 64 + l) div 4096 div 64"
    by (simp add: div_mult2_eq)
  also have "\<dots> = h" unfolding d using assms(1) by (rule digits2)
  finally show "(h * 262144 + k * 4096 + m * 64 + l) div 262144 = h" .
qed

lemma byte_of_unat: "unat (b::byte) = n \<Longrightarrow> of_nat n = b"
  by auto

lemma encode_decoded1: "unat b0 < 0x80 \<Longrightarrow> encode_cp (unat b0) = Some [b0]"
  by (simp add: encode_cp_def)

lemma encode_decoded2:
  assumes "0xC2 \<le> unat b0" "unat b0 \<le> 0xDF" "cont (unat b1)"
  shows "encode_cp ((unat b0 - 0xC0) * 64 + (unat b1 - 0x80)) = Some [b0, b1]"
proof -
  define h l where "h = unat b0 - 0xC0" and "l = unat b1 - 0x80"
  have u: "unat b0 = 0xC0 + h" "unat b1 = 0x80 + l"
    using assms unfolding h_def l_def cont_def by simp_all
  have b: "2 \<le> h" "h < 32" "l \<le> 63" using assms unfolding h_def l_def cont_def by auto
  have r: "\<not> h * 64 + l < 0x80" "h * 64 + l < 0x800" using b by simp_all
  have "encode_cp (h * 64 + l) = Some [of_nat (0xC0 + h), of_nat (0x80 + l)]"
    unfolding encode_cp_def digits2 [OF b(3)] using r by (simp del: of_nat_add)
  then show ?thesis
    unfolding byte_of_unat [OF u(1)] byte_of_unat [OF u(2)] unfolding h_def l_def .
qed

lemma encode_decoded3:
  assumes "0xE0 \<le> unat b0" "unat b0 \<le> 0xEF" "second_ok (unat b0) (unat b1)"
    "cont (unat b2)"
  shows "encode_cp ((unat b0 - 0xE0) * 4096 + (unat b1 - 0x80) * 64 + (unat b2 - 0x80))
         = Some [b0, b1, b2]"
proof -
  define h m l where "h = unat b0 - 0xE0" and "m = unat b1 - 0x80" and "l = unat b2 - 0x80"
  have c1: "0x80 \<le> unat b1 \<and> unat b1 \<le> 0xBF"
    using assms(3) unfolding second_ok_def cont_def by (auto split: if_splits)
  have u: "unat b0 = 0xE0 + h" "unat b1 = 0x80 + m" "unat b2 = 0x80 + l"
    using assms(1,4) c1 unfolding h_def m_def l_def cont_def by simp_all
  have b: "h < 16" "m \<le> 63" "l \<le> 63"
    using assms(2,4) c1 unfolding h_def m_def l_def cont_def by auto
  have z: "h = 0 \<Longrightarrow> 32 \<le> m" "h = 13 \<Longrightarrow> m < 32"
    using assms(3) unfolding u second_ok_def by (auto split: if_splits)
  have r: "\<not> h * 4096 + m * 64 + l < 0x80" "\<not> h * 4096 + m * 64 + l < 0x800"
    "h * 4096 + m * 64 + l < 0x10000"
    using b z(1) by (cases "h = 0"; simp)+
  have s: "\<not> is_surrogate (h * 4096 + m * 64 + l)"
    unfolding is_surrogate_def using b z(2) by (cases "h = 13") auto
  have "encode_cp (h * 4096 + m * 64 + l)
        = Some [of_nat (0xE0 + h), of_nat (0x80 + m), of_nat (0x80 + l)]"
    unfolding encode_cp_def digits3 [OF b(2,3)] using r s by (simp del: of_nat_add)
  then show ?thesis
    unfolding byte_of_unat [OF u(1)] byte_of_unat [OF u(2)] byte_of_unat [OF u(3)]
    unfolding h_def m_def l_def .
qed

lemma encode_decoded4:
  assumes "0xF0 \<le> unat b0" "unat b0 \<le> 0xF4" "second_ok (unat b0) (unat b1)"
    "cont (unat b2)" "cont (unat b3)"
  shows "encode_cp ((unat b0 - 0xF0) * 262144 + (unat b1 - 0x80) * 4096
                    + (unat b2 - 0x80) * 64 + (unat b3 - 0x80))
         = Some [b0, b1, b2, b3]"
proof -
  define h k m l where "h = unat b0 - 0xF0" and "k = unat b1 - 0x80"
    and "m = unat b2 - 0x80" and "l = unat b3 - 0x80"
  have c1: "0x80 \<le> unat b1 \<and> unat b1 \<le> 0xBF"
    using assms(3) unfolding second_ok_def cont_def by (auto split: if_splits)
  have u: "unat b0 = 0xF0 + h" "unat b1 = 0x80 + k" "unat b2 = 0x80 + m" "unat b3 = 0x80 + l"
    using assms(1,4,5) c1 unfolding h_def k_def m_def l_def cont_def by simp_all
  have b: "h < 5" "k \<le> 63" "m \<le> 63" "l \<le> 63"
    using assms(2,4,5) c1 unfolding h_def k_def m_def l_def cont_def by auto
  have z: "h = 0 \<Longrightarrow> 16 \<le> k" "h = 4 \<Longrightarrow> k < 16"
    using assms(3) unfolding u second_ok_def by (auto split: if_splits)
  have lo: "0x10000 \<le> h * 262144 + k * 4096 + m * 64 + l"
    using z(1) by (cases "h = 0") simp_all
  have hi: "h * 262144 + k * 4096 + m * 64 + l < 0x110000"
    using b z(2) by (cases "h = 4") simp_all
  have "encode_cp (h * 262144 + k * 4096 + m * 64 + l)
        = Some [of_nat (0xF0 + h), of_nat (0x80 + k), of_nat (0x80 + m), of_nat (0x80 + l)]"
    unfolding encode_cp_def digits4 [OF b(2,3,4)] using lo hi by (simp del: of_nat_add)
  then show ?thesis
    unfolding byte_of_unat [OF u(1)] byte_of_unat [OF u(2)] byte_of_unat [OF u(3)]
      byte_of_unat [OF u(4)]
    unfolding h_def k_def m_def l_def .
qed

lemma utf8_decode_Cons_cases:
  assumes "utf8_decode (b0 # bs) = Some t"
  obtains c enc r t' where "encode_cp c = Some enc" "b0 # bs = enc @ r"
    "utf8_decode r = Some t'" "t = c # t'" "length r < length (b0 # bs)"
proof -
  let ?n0 = "unat b0"
  consider (a) "?n0 < 0x80" | (b) "0xC2 \<le> ?n0" "?n0 \<le> 0xDF"
    | (c) "0xE0 \<le> ?n0" "?n0 \<le> 0xEF" | (d) "0xF0 \<le> ?n0" "?n0 \<le> 0xF4"
    using assms by (auto simp: Let_def split: if_splits)
  then show thesis
  proof cases
    case a
    then obtain t' where "utf8_decode bs = Some t'" "t = ?n0 # t'"
      using assms by auto
    then show thesis using that [of ?n0 "[b0]" bs t'] encode_decoded1 [OF a] by simp
  next
    case b
    then obtain b1 r t' where "bs = b1 # r" "cont (unat b1)" "utf8_decode r = Some t'"
      "t = ((?n0 - 0xC0) * 64 + (unat b1 - 0x80)) # t'"
      using assms by (auto simp: Let_def split: if_splits list.splits)
    then show thesis
      using that [of _ "[b0, b1]" r t'] encode_decoded2 [OF b, of b1] by simp
  next
    case c
    then obtain b1 b2 r t' where "bs = b1 # b2 # r" "second_ok ?n0 (unat b1)"
      "cont (unat b2)" "utf8_decode r = Some t'"
      "t = ((?n0 - 0xE0) * 4096 + (unat b1 - 0x80) * 64 + (unat b2 - 0x80)) # t'"
      using assms by (auto simp: Let_def split: if_splits list.splits)
    then show thesis
      using that [of _ "[b0, b1, b2]" r t'] encode_decoded3 [OF c, of b1 b2] by simp
  next
    case d
    then obtain b1 b2 b3 r t' where "bs = b1 # b2 # b3 # r" "second_ok ?n0 (unat b1)"
      "cont (unat b2)" "cont (unat b3)" "utf8_decode r = Some t'"
      "t = ((?n0 - 0xF0) * 262144 + (unat b1 - 0x80) * 4096 + (unat b2 - 0x80) * 64
            + (unat b3 - 0x80)) # t'"
      using assms by (auto simp: Let_def split: if_splits list.splits)
    then show thesis
      using that [of _ "[b0, b1, b2, b3]" r t'] encode_decoded4 [OF d, of b1 b2 b3] by simp
  qed
qed

lemma encode_decode: "utf8_decode bs = Some t \<Longrightarrow> utf8_encode t = Some bs"
proof (induction "length bs" arbitrary: bs t rule: less_induct)
  case less
  show ?case
  proof (cases bs)
    case Nil
    then show ?thesis using less.prems by simp
  next
    case (Cons b0 bs')
    from less.prems [unfolded Cons] obtain c enc r t'
      where e: "encode_cp c = Some enc" and s: "b0 # bs' = enc @ r"
        and d: "utf8_decode r = Some t'" and t: "t = c # t'"
        and l: "length r < length (b0 # bs')"
      by (rule utf8_decode_Cons_cases)
    have "utf8_encode t' = Some r" using less.hyps [of r t'] l d unfolding Cons by simp
    then show ?thesis unfolding t Cons s using e by simp
  qed
qed


section \<open>The substitution\<close>

lemma replace_crlf: "replace s [0x0D, 0x0A] [0x0A] = crlf_to_lf s"
  by (induction s rule: crlf_to_lf.induct) auto

lemma replace_cr: "replace s [0x0D] [0x0A] = map (\<lambda>c. if c = 0x0D then 0x0A else c) s"
  by (induction s) auto

lemma convert_eq: "convert s = map (\<lambda>c. if c = 0x0D then 0x0A else c) (crlf_to_lf s)"
  by (simp add: convert_def replace_crlf replace_cr)

lemma set_crlf_to_lf: "set (crlf_to_lf s) \<subseteq> set s"
  by (induction s rule: crlf_to_lf.induct) auto

lemma crlf_to_lf_id: "0x0D \<notin> set s \<Longrightarrow> crlf_to_lf s = s"
  by (induction s rule: crlf_to_lf.induct) auto

lemma length_crlf_to_lf: "length (crlf_to_lf s) \<le> length s"
  by (induction s rule: crlf_to_lf.induct) auto

lemma convert_no_cr: "0x0D \<notin> set (convert s)"
  by (auto simp: convert_eq)

lemma map_cr_id: "0x0D \<notin> set s \<Longrightarrow> map (\<lambda>c. if c = 0x0D then 0x0A else c) s = (s::str)"
  by (induction s) auto

lemma convert_id: "0x0D \<notin> set s \<Longrightarrow> convert s = s"
  by (simp add: convert_eq crlf_to_lf_id map_cr_id)

lemma convert_changes: "0x0D \<in> set s \<Longrightarrow> convert s \<noteq> s"
  using convert_no_cr [of s] by auto


lemma set_convert: "set (convert s) \<subseteq> insert 0x0A (set s)"
  using set_crlf_to_lf [of s] by (auto simp: convert_eq)

lemma length_convert: "length (convert s) \<le> length s"
  by (simp add: convert_eq length_crlf_to_lf)


section \<open>File selection\<close>

lemma name_snoc: "name (dir @ [x]) = x" by (simp add: name_def)

lemma dotenv_selected: "should_process_file (dir @ [str_of ''.env''])"
  unfolding should_process_file_def suffix_def name_snoc
  by (simp add: str_of_def lower_def lower_cp_def EXTENSIONS_def Let_def startswith_def)

lemma dotenv_local_rejected: "\<not> should_process_file (dir @ [str_of ''.env.local''])"
  unfolding should_process_file_def suffix_def name_snoc
  by (simp add: str_of_def lower_def lower_cp_def EXTENSIONS_def Let_def startswith_def)

text \<open>
  Claim C3. A path is selected exactly when its lower-cased extension is one of the
  recognised extensions, or it has no extension, its name starts with a dot and the name
  is one of \<open>.env\<close>, \<open>.gitignore\<close>, \<open>.gitattributes\<close>. A file named \<open>.env\<close> is selected,
  one named \<open>.env.local\<close> is not. The function maps a path to a truth value and touches
  no state.
\<close>

theorem should_process_file_spec:
  "should_process_file p =
     (lower (suffix p) \<in> set EXTENSIONS
      \<or> (suffix p = [] \<and> startswith (name p) (str_of ''.'')
         \<and> name p \<in> set (map str_of [''.env'', ''.gitignore'', ''.gitattributes''])))
   \<and> should_process_file (dir @ [str_of ''.env''])
   \<and> \<not> should_process_file (dir @ [str_of ''.env.local''])"
proof (intro conjI)
  show "should_process_file p =
     (lower (suffix p) \<in> set EXTENSIONS
      \<or> (suffix p = [] \<and> startswith (name p) (str_of ''.'')
         \<and> name p \<in> set (map str_of [''.env'', ''.gitignore'', ''.gitattributes''])))"
    unfolding should_process_file_def by (cases "lower (suffix p) \<in> set EXTENSIONS") auto
  show "should_process_file (dir @ [str_of ''.env''])" by (rule dotenv_selected)
  show "\<not> should_process_file (dir @ [str_of ''.env.local''])"
    by (rule dotenv_local_rejected)
qed

section \<open>The cases of normalize\_line\_endings\<close>

lemma utf8_encode_Some_iff:
  "(\<exists>bs. utf8_encode t = Some bs) = (\<forall>c \<in> set t. encode_cp c \<noteq> None)"
  by (induction t) (auto split: option.splits)

lemma encode_cp_ascii: "c < 0x80 \<Longrightarrow> encode_cp c = Some [of_nat c]"
  by (simp add: encode_cp_def)

lemma encode_cp_latin1:
  "\<not> c < 0x80 \<Longrightarrow> c < 0x100 \<Longrightarrow>
   encode_cp c = Some [of_nat (0xC0 + c div 64), of_nat (0x80 + c mod 64)]"
  by (simp add: encode_cp_def)

lemma encodable_convert:
  assumes "utf8_encode t = Some bs"
  shows "\<exists>data. utf8_encode (convert t) = Some data"
proof -
  have "\<forall>c \<in> set t. encode_cp c \<noteq> None"
    using assms utf8_encode_Some_iff [of t] by blast
  moreover have "encode_cp 0x0A \<noteq> None" by (simp add: encode_cp_def)
  ultimately have "\<forall>c \<in> set (convert t). encode_cp c \<noteq> None"
    using set_convert [of t] by auto
  then show ?thesis using utf8_encode_Some_iff [of "convert t"] by blast
qed

lemma encodable_latin1: "\<exists>bs. utf8_encode (map unat (c :: bytes)) = Some bs"
proof -
  have "encode_cp (unat b) \<noteq> None" for b :: byte
  proof -
    have "unat b < 256" using unsigned_less [of b, where ?'a = nat] by simp
    then show ?thesis by (simp add: encode_cp_def)
  qed
  then show ?thesis using utf8_encode_Some_iff [of "map unat c"] by auto
qed

lemma decode_text_cases:
  obtains (utf8) t where "utf8_decode c = Some t" "decode_text c = Some t"
    "utf8_encode t = Some c"
  | (latin1) "utf8_decode c = None" "decode_text c = Some (map unat c)"
proof (cases "utf8_decode c")
  case None
  then show ?thesis using latin1 by (simp add: decode_text_def latin1_decode_def)
next
  case (Some t)
  then show ?thesis using utf8 [of t] encode_decode [OF Some] by (simp add: decode_text_def)
qed

lemma decode_text_encodable:
  assumes "decode_text c = Some t"
  shows "\<exists>bs. utf8_encode t = Some bs"
proof (cases c rule: decode_text_cases)
  case (utf8 t')
  then show ?thesis using assms by auto
next
  case latin1
  then show ?thesis using assms encodable_latin1 [of c] by auto
qed

lemma decode_text_total: "\<exists>t. decode_text c = Some t"
  by (cases c rule: decode_text_cases) auto


lemma open_rb_Inr: "open_rb p w = Inr f \<longleftrightarrow> files w p = Some f \<and> readable f"
  by (auto simp: open_rb_def split: option.splits)

lemma normalize_unreadable:
  "open_rb p w = Inl e \<Longrightarrow>
   normalize_line_endings p w = (False, print (ErrorProcessing p e) w)"
  by (simp add: normalize_line_endings_def normalize_try_def)

lemma normalize_clean:
  assumes "open_rb p w = Inr f" "decode_text (contents f) = Some t" "convert t = t"
  shows "normalize_line_endings p w = (False, w)"
  using assms by (simp add: normalize_line_endings_def normalize_try_def)

lemma normalize_readonly:
  assumes "open_rb p w = Inr f" "decode_text (contents f) = Some t" "convert t \<noteq> t"
    "\<not> writable f"
  shows "normalize_line_endings p w = (False, print (ErrorProcessing p PermissionError) w)"
proof -
  have "files w p = Some f" using assms(1) by (simp add: open_rb_Inr)
  then have "open_wb p w = Inl PermissionError" using assms(4) by (simp add: open_wb_def)
  then show ?thesis
    using assms(1-3) by (simp add: normalize_line_endings_def normalize_try_def)
qed

lemma normalize_rewrite:
  assumes "open_rb p w = Inr f" "decode_text (contents f) = Some t" "convert t \<noteq> t"
    "writable f" "utf8_encode (convert t) = Some data"
  shows "normalize_line_endings p w =
         (True, w\<lparr>files := (files w)(p \<mapsto> f\<lparr>mtime := mtime f + 1, contents := data\<rparr>)\<rparr>)"
proof -
  have f: "files w p = Some f" using assms(1) by (simp add: open_rb_Inr)
  define w1 where "w1 = w\<lparr>files := (files w)(p \<mapsto> f\<lparr>mtime := mtime f + 1, contents := []\<rparr>)\<rparr>"
  have o: "open_wb p w = Inr w1" using f assms(4) by (simp add: open_wb_def w1_def)
  have wr: "write_bytes p data w1
            = w\<lparr>files := (files w)(p \<mapsto> f\<lparr>mtime := mtime f + 1, contents := data\<rparr>)\<rparr>"
    by (simp add: write_bytes_def w1_def)
  show ?thesis
    using assms(1-3,5) o wr by (simp add: normalize_line_endings_def normalize_try_def)
qed

lemma normalize_cases:
  obtains (unreadable) e where "open_rb p w = Inl e"
      "normalize_line_endings p w = (False, print (ErrorProcessing p e) w)"
  | (clean) f t where "files w p = Some f" "readable f" "decode_text (contents f) = Some t"
      "convert t = t" "normalize_line_endings p w = (False, w)"
  | (readonly) f t where "files w p = Some f" "readable f"
      "decode_text (contents f) = Some t" "convert t \<noteq> t" "\<not> writable f"
      "normalize_line_endings p w = (False, print (ErrorProcessing p PermissionError) w)"
  | (rewrite) f t data where "files w p = Some f" "readable f" "writable f"
      "decode_text (contents f) = Some t" "convert t \<noteq> t"
      "utf8_encode (convert t) = Some data"
      "normalize_line_endings p w =
         (True, w\<lparr>files := (files w)(p \<mapsto> f\<lparr>mtime := mtime f + 1, contents := data\<rparr>)\<rparr>)"
proof (cases "open_rb p w")
  case (Inl e)
  then show ?thesis using unreadable normalize_unreadable by blast
next
  case (Inr f)
  then have f: "files w p = Some f" "readable f" by (simp_all add: open_rb_Inr)
  obtain t where t: "decode_text (contents f) = Some t"
    using decode_text_total by blast
  show ?thesis
  proof (cases "convert t = t")
    case True
    then show ?thesis using clean f t normalize_clean [OF Inr t] by blast
  next
    case False
    obtain bs where "utf8_encode t = Some bs" using decode_text_encodable [OF t] by blast
    then obtain data where d: "utf8_encode (convert t) = Some data"
      using encodable_convert by blast
    show ?thesis
    proof (cases "writable f")
      case True
      then show ?thesis
        using rewrite [OF f True t False d] normalize_rewrite [OF Inr t False True d] by blast
    next
      case nw: False
      then show ?thesis
        using readonly [OF f t False nw] normalize_readonly [OF Inr t False nw] by blast
    qed
  qed
qed

section \<open>Line terminators and encoded bytes\<close>

lemma encode_cp_hi:
  assumes "encode_cp c = Some e" "\<not> c < 0x80"
  shows "e \<noteq> [] \<and> (\<forall>b \<in> set e. 0x80 \<le> unat b)"
proof -
  consider (b) "c < 0x800" | (c) "0x800 \<le> c" "c < 0x10000" | (d) "0x10000 \<le> c" "c < 0x110000"
    using assms unfolding encode_cp_def by (auto split: if_splits)
  then show ?thesis
  proof cases
    case b
    then have e: "e = [of_nat (0xC0 + c div 64), of_nat (0x80 + c mod 64)]"
      using assms unfolding encode_cp_def by simp
    have "c div 64 < 32" using b by simp
    then have "unat (of_nat (0xC0 + c div 64) :: byte) = 0xC0 + c div 64"
      by (intro unat_byte) simp
    moreover have "unat (of_nat (0x80 + c mod 64) :: byte) = 0x80 + c mod 64"
      using mod64_le [of c] by (intro unat_byte) simp
    ultimately show ?thesis unfolding e by simp
  next
    case c
    then have e: "e = [of_nat (0xE0 + c div 4096), of_nat (0x80 + c div 64 mod 64),
                       of_nat (0x80 + c mod 64)]"
      using assms unfolding encode_cp_def by (simp split: if_splits)
    have "c div 4096 < 16" using c by simp
    then have "unat (of_nat (0xE0 + c div 4096) :: byte) = 0xE0 + c div 4096"
      by (intro unat_byte) simp
    moreover have "unat (of_nat (0x80 + c div 64 mod 64) :: byte) = 0x80 + c div 64 mod 64"
      using mod64_le [of "c div 64"] by (intro unat_byte) simp
    moreover have "unat (of_nat (0x80 + c mod 64) :: byte) = 0x80 + c mod 64"
      using mod64_le [of c] by (intro unat_byte) simp
    ultimately show ?thesis unfolding e by simp
  next
    case d
    then have e: "e = [of_nat (0xF0 + c div 262144), of_nat (0x80 + c div 4096 mod 64),
                       of_nat (0x80 + c div 64 mod 64), of_nat (0x80 + c mod 64)]"
      using assms unfolding encode_cp_def by simp
    have "c div 262144 < 5" using d by simp
    then have "unat (of_nat (0xF0 + c div 262144) :: byte) = 0xF0 + c div 262144"
      by (intro unat_byte) simp
    moreover have "unat (of_nat (0x80 + c div 4096 mod 64) :: byte) = 0x80 + c div 4096 mod 64"
      using mod64_le [of "c div 4096"] by (intro unat_byte) simp
    moreover have "unat (of_nat (0x80 + c div 64 mod 64) :: byte) = 0x80 + c div 64 mod 64"
      using mod64_le [of "c div 64"] by (intro unat_byte) simp
    moreover have "unat (of_nat (0x80 + c mod 64) :: byte) = 0x80 + c mod 64"
      using mod64_le [of c] by (intro unat_byte) simp
    ultimately show ?thesis unfolding e by simp
  qed
qed

lemma count_list_hi:
  "\<forall>b \<in> set e. 0x80 \<le> unat b \<Longrightarrow> x < 0x80 \<Longrightarrow> count_list (map unat e) x = 0"
  by (induction e) auto

lemma count_list_append: "count_list (xs @ ys) x = count_list xs x + count_list ys x"
  by (induction xs) auto

lemma count_encode:
  assumes "utf8_encode t = Some bs" "x < 0x80"
  shows "count_list (map unat bs) x = count_list t x"
  using assms(1)
proof (induction t arbitrary: bs)
  case Nil
  then show ?case by simp
next
  case (Cons c cs)
  then obtain e r where e: "encode_cp c = Some e" and r: "utf8_encode cs = Some r"
    and bs: "bs = e @ r"
    by (auto split: option.splits)
  have ih: "count_list (map unat r) x = count_list cs x" using Cons.IH [OF r] .
  show ?case
  proof (cases "c < 0x80")
    case True
    then have "e = [of_nat c]" using e by (simp add: encode_cp_def)
    then show ?thesis unfolding bs using ih True by (simp add: unat_byte)
  next
    case False
    then have "count_list (map unat e) x = 0"
      using encode_cp_hi [OF e False] assms(2) count_list_hi by blast
    moreover have "c \<noteq> x" using False assms(2) by auto
    ultimately show ?thesis unfolding bs using ih by (simp add: count_list_append)
  qed
qed

lemma count_list_unat: "count_list (map unat bs) (unat b) = count_list bs (b :: byte)"
  by (induction bs) (auto simp: word_unat_eq_iff)

lemma lt_from_hi:
  "e \<noteq> [] \<Longrightarrow> \<forall>b \<in> set e. 0x80 \<le> unat b \<Longrightarrow>
   lt_from p (map unat e @ ys) = lt_from False ys"
proof (induction e arbitrary: p)
  case Nil
  then show ?case by simp
next
  case (Cons b e)
  have b: "unat b \<noteq> 0x0A" "unat b \<noteq> 0x0D" using Cons.prems(2) by auto
  show ?case
  proof (cases "e = []")
    case True
    then show ?thesis using b by simp
  next
    case False
    then show ?thesis using b Cons.IH [OF False, of False] Cons.prems(2) by simp
  qed
qed

lemma lt_from_encode:
  "utf8_encode t = Some bs \<Longrightarrow> lt_from p (map unat bs) = lt_from p t"
proof (induction t arbitrary: bs p)
  case Nil
  then show ?case by simp
next
  case (Cons c cs)
  then obtain e r where e: "encode_cp c = Some e" and r: "utf8_encode cs = Some r"
    and bs: "bs = e @ r"
    by (auto split: option.splits)
  show ?case
  proof (cases "c < 0x80")
    case True
    then have "e = [of_nat c]" using e by (simp add: encode_cp_def)
    then show ?thesis unfolding bs using Cons.IH [OF r] True by (simp add: unat_byte)
  next
    case False
    have "lt_from p (map unat e @ map unat r) = lt_from False (map unat r)"
      using encode_cp_hi [OF e False] by (intro lt_from_hi) auto
    moreover have "lt_from p (c # cs) = lt_from False cs" using False by simp
    ultimately show ?thesis unfolding bs using Cons.IH [OF r, of False] by simp
  qed
qed

lemma line_terminators_lt_from: "line_terminators xs = lt_from False xs"
  by (induction xs rule: line_terminators.induct) auto

lemma count_convert: "count_list (convert s) 0x0A = line_terminators s"
  unfolding convert_eq by (induction s rule: crlf_to_lf.induct) auto

lemma mem_count: "x \<in> set xs \<longleftrightarrow> 0 < count_list xs x"
  by (induction xs) auto

lemma decode_text_cr:
  assumes "decode_text c = Some t"
  shows "0x0D \<in> set t \<longleftrightarrow> 0x0D \<in> set c"
    and "line_terminators t = line_terminators (map unat c)"
proof -
  have "count_list t 0x0D = count_list c 0x0D \<and> lt_from False t = lt_from False (map unat c)"
  proof (cases c rule: decode_text_cases)
    case (utf8 t')
    then have e: "utf8_encode t = Some c" using assms by simp
    have "count_list (map unat c) (unat (0x0D :: byte)) = count_list t 0x0D"
      using count_encode [OF e, of "0x0D"] by simp
    then show ?thesis using lt_from_encode [OF e, of False] count_list_unat [of c "0x0D"] by simp
  next
    case latin1
    then have t: "t = map unat c" using assms by simp
    show ?thesis unfolding t using count_list_unat [of c "0x0D"] by simp
  qed
  then show "0x0D \<in> set t \<longleftrightarrow> 0x0D \<in> set c"
    and "line_terminators t = line_terminators (map unat c)"
    by (simp_all add: mem_count line_terminators_lt_from)
qed

lemma encode_lf_cr:
  assumes "utf8_encode t = Some bs"
  shows "count_list bs 0x0A = count_list t 0x0A" and "0x0D \<in> set bs \<longleftrightarrow> 0x0D \<in> set t"
proof -
  have a: "count_list (map unat bs) (unat (0x0A :: byte)) = count_list t 0x0A"
    using count_encode [OF assms, of "0x0A"] by simp
  have b: "count_list (map unat bs) (unat (0x0D :: byte)) = count_list t 0x0D"
    using count_encode [OF assms, of "0x0D"] by simp
  show "count_list bs 0x0A = count_list t 0x0A" using a count_list_unat [of bs "0x0A"] by simp
  show "0x0D \<in> set bs \<longleftrightarrow> 0x0D \<in> set t"
    using b count_list_unat [of bs "0x0D"] by (simp add: mem_count)
qed

section \<open>Frame, locality and idempotence of one normalisation\<close>


lemma normalize_frame:
  "tree (snd (normalize_line_endings p w)) = tree w"
  "q \<noteq> p \<Longrightarrow> files (snd (normalize_line_endings p w)) q = files w q"
  by (cases p w rule: normalize_cases; simp add: print_def)+

lemma normalize_stdout:
  "\<exists>ms. stdout (snd (normalize_line_endings p w)) = stdout w @ ms
        \<and> set ms \<subseteq> range (ErrorProcessing p)"
  by (cases p w rule: normalize_cases) (auto simp: print_def)




lemma settled_unchanged:
  assumes "settled p w"
  shows "fst (normalize_line_endings p w) = False"
    and "files (snd (normalize_line_endings p w)) = files w"
    and "tree (snd (normalize_line_endings p w)) = tree w"
proof -
  show "fst (normalize_line_endings p w) = False" using assms by (simp add: settled_def)
  show "tree (snd (normalize_line_endings p w)) = tree w" by (rule normalize_frame)
  show "files (snd (normalize_line_endings p w)) = files w"
  proof
    fix q
    show "files (snd (normalize_line_endings p w)) q = files w q"
      using assms normalize_frame(2) [where q = q and p = p and w = w] by (cases "q = p") (simp_all add: settled_def)
  qed
qed


section \<open>The loop of main\<close>

lemma visit_file_skip: "\<not> should_process_file p \<Longrightarrow> visit_file start p s = s"
  by (simp add: visit_file_def)

lemma visit_file_sel:
  assumes "should_process_file p"
  shows "processed_count (visit_file start p s) = processed_count s + 1"
    and "changed_count (visit_file start p s)
         = changed_count s + (if fst (normalize_line_endings p (world s)) then 1 else 0)"
    and "tree (world (visit_file start p s)) = tree (snd (normalize_line_endings p (world s)))"
    and "files (world (visit_file start p s)) = files (snd (normalize_line_endings p (world s)))"
proof -
  obtain r w' where n: "normalize_line_endings p (world s) = (r, w')"
    by (cases "normalize_line_endings p (world s)")
  show "processed_count (visit_file start p s) = processed_count s + 1"
    using assms n by (cases r) (simp_all add: visit_file_def Let_def)
  show "changed_count (visit_file start p s)
        = changed_count s + (if fst (normalize_line_endings p (world s)) then 1 else 0)"
    using assms n by (cases r) (simp_all add: visit_file_def Let_def)
  show "tree (world (visit_file start p s)) = tree (snd (normalize_line_endings p (world s)))"
    using assms n by (cases r) (simp_all add: visit_file_def Let_def print_def)
  show "files (world (visit_file start p s)) = files (snd (normalize_line_endings p (world s)))"
    using assms n by (cases r) (simp_all add: visit_file_def Let_def print_def)
qed


lemma visit_file_frame: "q \<noteq> p \<Longrightarrow> files (world (visit_file start p s)) q = files (world s) q"
  by (cases "should_process_file p")
    (simp_all add: visit_file_skip visit_file_sel(4) normalize_frame(2))

lemma visit_file_counters:
  "processed_count (visit_file start p s) - processed_count s \<in> {0, 1}"
  "changed_count (visit_file start p s) - changed_count s \<in> {0, 1}"
  "changed_count (visit_file start p s) - changed_count s
   \<le> processed_count (visit_file start p s) - processed_count s"
  by (cases "should_process_file p"; simp add: visit_file_skip visit_file_sel)+


lemma fold_visit_frame:
  "q \<notin> set ps \<Longrightarrow> files (world (fold (visit_file start) ps s)) q = files (world s) q"
  by (induction ps arbitrary: s) (auto simp: visit_file_frame)

lemma fold_visit_processed:
  "processed_count (fold (visit_file start) ps s)
   = processed_count s + int (length (filter should_process_file ps))"
  by (induction ps arbitrary: s) (auto simp: visit_file_skip visit_file_sel(1))

lemma fold_visit_changed:
  "changed_count s \<le> changed_count (fold (visit_file start) ps s)
   \<and> changed_count (fold (visit_file start) ps s) - changed_count s
     \<le> processed_count (fold (visit_file start) ps s) - processed_count s"
proof (induction ps arbitrary: s)
  case Nil
  then show ?case by simp
next
  case (Cons p ps)
  show ?case
    using Cons.IH [of "visit_file start p s"] visit_file_counters [of start p s]
    by auto
qed

lemma fold_visit_dir:
  "fold (visit_dir start) ts s
   = fold (visit_file start)
       (concat (map (\<lambda>(root, dirs, files). map (\<lambda>filename. root @ [filename]) files) ts)) s"
proof (induction ts arbitrary: s)
  case Nil
  then show ?case by simp
next
  case (Cons t ts)
  obtain root dirs files where t: "t = (root, dirs, files)" by (cases t)
  have "visit_dir start t s
        = fold (visit_file start) (map (\<lambda>filename. root @ [filename]) files) s"
    unfolding t visit_dir_def by (simp add: fold_map comp_def)
  then show ?case using Cons.IH [of "visit_dir start t s"] unfolding t by simp
qed

lemma main_loop_fold:
  "main_loop start w
   = fold (visit_file start) (visited_files start w)
       \<lparr>world = w, processed_count = 0, changed_count = 0\<rparr>"
  by (simp add: main_loop_def visited_files_def fold_visit_dir)

section \<open>Pruned directories and the effect of main\<close>

lemma walk_roots:
  "(root, dirs, fnames) \<in> set (walk dirpath d) \<Longrightarrow>
   \<exists>rel. root = dirpath @ rel \<and> set rel \<inter> set EXCLUDED_DIRS = {}
         \<and> set dirs \<inter> set EXCLUDED_DIRS = {}"
proof (induction dirpath d arbitrary: root dirs fnames rule: walk.induct)
  case (1 dirpath ds fs)
  define kept where "kept = filter (\<lambda>d. d \<notin> set EXCLUDED_DIRS) (map fst ds)"
  have k: "set kept \<inter> set EXCLUDED_DIRS = {}" unfolding kept_def by auto
  have "(root, dirs, fnames) = (dirpath, kept, fs)
        \<or> (\<exists>d \<in> set kept. \<exists>sub. map_of ds d = Some sub
             \<and> (root, dirs, fnames) \<in> set (walk (dirpath @ [d]) sub))"
    using "1.prems" unfolding kept_def
    by (simp add: Let_def) (fastforce split: option.splits)
  then consider (here) "(root, dirs, fnames) = (dirpath, kept, fs)"
    | (below) d sub where "d \<in> set kept" "map_of ds d = Some sub"
        "(root, dirs, fnames) \<in> set (walk (dirpath @ [d]) sub)"
    by blast
  then show ?case
  proof cases
    case here
    then show ?thesis using k by simp
  next
    case (below d sub)
    from "1.IH" [OF kept_def [symmetric, THEN sym] below(1) below(2) below(3)]
    obtain rel where r: "root = (dirpath @ [d]) @ rel" "set rel \<inter> set EXCLUDED_DIRS = {}"
      "set dirs \<inter> set EXCLUDED_DIRS = {}"
      by blast
    have "d \<notin> set EXCLUDED_DIRS" using below(1) k by auto
    then have "root = dirpath @ (d # rel) \<and> set (d # rel) \<inter> set EXCLUDED_DIRS = {}"
      using r by simp
    then show ?thesis using r(3) by blast
  qed
qed

lemma os_walk_roots:
  assumes "(root, dirs, fnames) \<in> set (os_walk start w)"
  shows "\<exists>rel. root = start @ rel \<and> set rel \<inter> set EXCLUDED_DIRS = {}
         \<and> set dirs \<inter> set EXCLUDED_DIRS = {}"
proof (cases "subtree start (tree w)")
  case None
  then show ?thesis using assms by (simp add: os_walk_def)
next
  case (Some d)
  then have "(root, dirs, fnames) \<in> set (walk start d)" using assms by (simp add: os_walk_def)
  then show ?thesis by (rule walk_roots)
qed

lemma visited_files_rel:
  assumes "p \<in> set (visited_files start w)"
  shows "\<exists>rel fn. p = start @ rel @ [fn] \<and> set rel \<inter> set EXCLUDED_DIRS = {}"
proof -
  from assms obtain root dirs fnames fn
    where t: "(root, dirs, fnames) \<in> set (os_walk start w)" and p: "p = root @ [fn]"
    unfolding visited_files_def by auto
  from os_walk_roots [OF t] obtain rel
    where "root = start @ rel" "set rel \<inter> set EXCLUDED_DIRS = {}" by blast
  then show ?thesis using p by auto
qed

lemma excluded_not_visited:
  assumes "set rel \<inter> set EXCLUDED_DIRS \<noteq> {}"
  shows "start @ rel @ [fn] \<notin> set (visited_files start w)"
proof
  assume "start @ rel @ [fn] \<in> set (visited_files start w)"
  from visited_files_rel [OF this] obtain rel' fn'
    where e: "start @ rel @ [fn] = start @ rel' @ [fn']"
      and d: "set rel' \<inter> set EXCLUDED_DIRS = {}"
    by blast
  from e have "rel = rel'" by simp
  then show False using assms d by simp
qed

lemma excluded_not_walked:
  assumes "set rel \<inter> set EXCLUDED_DIRS \<noteq> {}"
  shows "start @ rel \<notin> fst ` set (os_walk start w)"
proof
  assume "start @ rel \<in> fst ` set (os_walk start w)"
  then obtain dirs fnames where "(start @ rel, dirs, fnames) \<in> set (os_walk start w)" by auto
  from os_walk_roots [OF this] obtain rel'
    where "start @ rel = start @ rel'" "set rel' \<inter> set EXCLUDED_DIRS = {}" by blast
  then show False using assms by simp
qed

lemma visited_files_tree: "tree v = tree w \<Longrightarrow> visited_files start v = visited_files start w"
  by (simp add: visited_files_def os_walk_def)

lemma main_missing:
  "\<not> path_exists start w \<Longrightarrow> main start w = (1, print (NoSuchDirectory start) w)"
  by (simp add: main_def)

lemma main_exists:
  assumes "path_exists start w"
  shows "main start w =
     (0, print (Summary
                  (processed_count (main_loop start (print Excluding (print Extensions (print (Scanning start) w)))))
                  (changed_count (main_loop start (print Excluding (print Extensions (print (Scanning start) w)))))
                  (processed_count (main_loop start (print Excluding (print Extensions (print (Scanning start) w))))
                   - changed_count (main_loop start (print Excluding (print Extensions (print (Scanning start) w))))))
           (world (main_loop start (print Excluding (print Extensions (print (Scanning start) w))))))"
  using assms by (simp add: main_def Let_def)

lemma header_fields:
  "tree (print Excluding (print Extensions (print (Scanning start) w))) = tree w"
  "files (print Excluding (print Extensions (print (Scanning start) w))) = files w"
  by (simp_all add: print_def)


lemma main_loop_frame:
  "q \<notin> set (visited_files start w) \<Longrightarrow> files (world (main_loop start w)) q = files w q"
  by (simp add: main_loop_fold fold_visit_frame)


lemma main_frame:
  assumes "q \<notin> set (visited_files start w)"
  shows "files (snd (main start w)) q = files w q"
proof (cases "path_exists start w")
  case False
  then show ?thesis by (simp add: main_missing print_def)
next
  case True
  let ?h = "print Excluding (print Extensions (print (Scanning start) w))"
  have "visited_files start ?h = visited_files start w"
    by (rule visited_files_tree) (simp add: header_fields)
  then have "files (world (main_loop start ?h)) q = files ?h q"
    using assms main_loop_frame [of q start ?h] by simp
  then show ?thesis using True by (simp add: main_exists header_fields print_def)
qed

section \<open>A second run changes nothing\<close>





lemma visit_settled:
  assumes "should_process_file p \<Longrightarrow> settled p (world s)"
  shows "changed_count (visit_file start p s) = changed_count s"
    and "files (world (visit_file start p s)) = files (world s)"
proof -
  show "changed_count (visit_file start p s) = changed_count s"
    using assms settled_unchanged(1) [of p "world s"]
    by (cases "should_process_file p") (simp_all add: visit_file_skip visit_file_sel(2))
  show "files (world (visit_file start p s)) = files (world s)"
    using assms settled_unchanged(2) [of p "world s"]
    by (cases "should_process_file p") (simp_all add: visit_file_skip visit_file_sel(4))
qed








section \<open>Normalising a file with carriage returns\<close>

lemma open_rb_file: "files w p = Some f \<Longrightarrow> readable f \<Longrightarrow> open_rb p w = Inr f"
  by (simp add: open_rb_def)

lemma rewrite_result:
  assumes "files w p = Some f" "readable f" "writable f" "0x0D \<in> set (contents f)"
  obtains t data where "decode_text (contents f) = Some t" "0x0D \<in> set t"
    "utf8_encode (convert t) = Some data"
    "normalize_line_endings p w =
       (True, w\<lparr>files := (files w)(p \<mapsto> f\<lparr>mtime := mtime f + 1, contents := data\<rparr>)\<rparr>)"
proof -
  have o: "open_rb p w = Inr f" using assms(1,2) by (rule open_rb_file)
  obtain t where t: "decode_text (contents f) = Some t" using decode_text_total by blast
  have cr: "0x0D \<in> set t" using decode_text_cr(1) [OF t] assms(4) by simp
  then have ne: "convert t \<noteq> t" by (rule convert_changes)
  obtain bs where "utf8_encode t = Some bs" using decode_text_encodable [OF t] by blast
  then obtain data where d: "utf8_encode (convert t) = Some data"
    using encodable_convert by blast
  show thesis using that [OF t cr d normalize_rewrite [OF o t ne assms(3) d]] .
qed

lemma example_decode:
  "decode_text [0x61, 0x0D, 0x0A, 0x62, 0x0D, 0x63, 0x0A] = Some [0x61, 0x0D, 0x0A, 0x62, 0x0D, 0x63, 0x0A]"
  by code_simp

lemma example_convert:
  "utf8_encode (convert [0x61, 0x0D, 0x0A, 0x62, 0x0D, 0x63, 0x0A])
   = Some [0x61, 0x0A, 0x62, 0x0A, 0x63, 0x0A]"
  by code_simp

text \<open>
  Claim C1. When a readable and writable file contains a carriage return, normalising it
  reports a change and leaves the UTF-8 encoding of the converted text in the file; the new
  contents hold no CR byte, and they hold exactly one LF byte for each line terminator
  (CRLF pair, lone CR or LF) of the old contents. The bytes \<open>a\r\nb\rc\n\<close> become
  \<open>a\nb\nc\n\<close>.
\<close>

theorem normalize_removes_cr:
  assumes "files w p = Some f" "readable f" "writable f" "0x0D \<in> set (contents f)"
  shows "\<exists>f' t. fst (normalize_line_endings p w) = True
           \<and> files (snd (normalize_line_endings p w)) p = Some f'
           \<and> decode_text (contents f) = Some t
           \<and> utf8_encode (convert t) = Some (contents f')
           \<and> 0x0D \<notin> set (contents f')
           \<and> count_list (contents f') 0x0A = line_terminators (map unat (contents f))
           \<and> (contents f = [0x61, 0x0D, 0x0A, 0x62, 0x0D, 0x63, 0x0A]
                \<longrightarrow> contents f' = [0x61, 0x0A, 0x62, 0x0A, 0x63, 0x0A])"
proof -
  from assms obtain t data where t: "decode_text (contents f) = Some t"
    and d: "utf8_encode (convert t) = Some data"
    and n: "normalize_line_endings p w =
       (True, w\<lparr>files := (files w)(p \<mapsto> f\<lparr>mtime := mtime f + 1, contents := data\<rparr>)\<rparr>)"
    by (rule rewrite_result)
  let ?f' = "f\<lparr>mtime := mtime f + 1, contents := data\<rparr>"
  have 1: "fst (normalize_line_endings p w) = True" using n by simp
  have 2: "files (snd (normalize_line_endings p w)) p = Some ?f'" using n by simp
  have 3: "utf8_encode (convert t) = Some (contents ?f')" using d by simp
  have 4: "0x0D \<notin> set (contents ?f')"
    using encode_lf_cr(2) [OF d] convert_no_cr [of t] by simp
  have 5: "count_list (contents ?f') 0x0A = line_terminators (map unat (contents f))"
    using encode_lf_cr(1) [OF d] count_convert [of t] decode_text_cr(2) [OF t] by simp
  have 6: "contents f = [0x61, 0x0D, 0x0A, 0x62, 0x0D, 0x63, 0x0A]
           \<longrightarrow> contents ?f' = [0x61, 0x0A, 0x62, 0x0A, 0x63, 0x0A]"
  proof
    assume "contents f = [0x61, 0x0D, 0x0A, 0x62, 0x0D, 0x63, 0x0A]"
    then have "t = [0x61, 0x0D, 0x0A, 0x62, 0x0D, 0x63, 0x0A]"
      using t example_decode by simp
    then show "contents ?f' = [0x61, 0x0A, 0x62, 0x0A, 0x63, 0x0A]"
      using d example_convert by simp
  qed
  show ?thesis using 1 2 t 3 4 5 6 by blast
qed

lemma demo_a: "files demo [str_of ''a.txt'']
   = Some (rw_file [0x61, 0x0D, 0x0A, 0x62, 0x0D, 0x63, 0x0A])"
  by (simp add: demo_def demo_files_def str_of_def)

theorem normalize_removes_cr_witness:
  "\<exists>f'. fst (normalize_line_endings [str_of ''a.txt''] demo) = True
      \<and> files (snd (normalize_line_endings [str_of ''a.txt''] demo)) [str_of ''a.txt'']
        = Some f'
      \<and> 0x0D \<notin> set (contents f')
      \<and> contents f' = [0x61, 0x0A, 0x62, 0x0A, 0x63, 0x0A]"
  using normalize_removes_cr [OF demo_a] by (simp add: rw_file_def) blast

section \<open>Files without carriage returns, second runs, and the decoding cascade\<close>

lemma no_cr_settled:
  assumes "files w p = Some f" "decode_text (contents f) = Some t" "0x0D \<notin> set t"
  shows "settled p w" and "readable f \<Longrightarrow> normalize_line_endings p w = (False, w)"
proof -
  have c: "convert t = t" using assms(3) by (rule convert_id)
  show r: "normalize_line_endings p w = (False, w)" if "readable f"
    using open_rb_file [OF assms(1) that] assms(2) c by (rule normalize_clean)
  show "settled p w"
  proof (cases "readable f")
    case True
    then show ?thesis using r by (simp add: settled_def)
  next
    case False
    then have "open_rb p w = Inl PermissionError" using assms(1) by (simp add: open_rb_def)
    then show ?thesis
      using normalize_unreadable [of p w PermissionError] by (simp add: settled_def print_def)
  qed
qed

text \<open>
  Claim C5. When the decoded text of a file holds no carriage return, normalising it
  reports no change and writes nothing: every file keeps its record (contents and
  modification count); when the file is readable the whole state is left as it was. The
  loop of \<open>main\<close> does not increment the changed counter for it.
\<close>

theorem normalize_lf_only:
  assumes "files (world s) p = Some f" "decode_text (contents f) = Some t" "0x0D \<notin> set t"
  shows "fst (normalize_line_endings p (world s)) = False
       \<and> files (snd (normalize_line_endings p (world s))) = files (world s)
       \<and> (readable f \<longrightarrow> normalize_line_endings p (world s) = (False, world s))
       \<and> changed_count (visit_file start p s) = changed_count s"
proof -
  have st: "settled p (world s)" using assms by (rule no_cr_settled(1))
  have "changed_count (visit_file start p s) = changed_count s"
    using st by (intro visit_settled(1)) simp
  then show ?thesis
    using settled_unchanged(1,2) [OF st] no_cr_settled(2) [OF assms] by simp
qed

lemma demo_clean: "files demo [str_of ''clean.py''] = Some (rw_file [0x78, 0x0A])"
  by (simp add: demo_def demo_files_def str_of_def)

lemma demo_clean_text: "decode_text [0x78, 0x0A] = Some [0x78, 0x0A]"
  by code_simp

theorem normalize_lf_only_witness:
  "normalize_line_endings [str_of ''clean.py''] demo = (False, demo)
   \<and> changed_count (visit_file [] [str_of ''clean.py'']
        \<lparr>world = demo, processed_count = 0, changed_count = 0\<rparr>) = 0"
  using normalize_lf_only [of "\<lparr>world = demo, processed_count = 0, changed_count = 0\<rparr>"
      "[str_of ''clean.py'']" "rw_file [0x78, 0x0A]" "[0x78, 0x0A]" "[]"]
    demo_clean demo_clean_text
  by (simp add: rw_file_def)





text \<open>
  Claim C10. Decoding with latin-1 succeeds on every byte sequence, so the decoding cascade
  always yields a text and the branch that prints the encoding warning is never taken:
  what \<open>normalize_line_endings\<close> prints never contains that warning.
\<close>

theorem encoding_skip_unreachable:
  "latin1_decode bs \<noteq> None \<and> decode_text bs \<noteq> None
   \<and> normalize_try p w \<noteq> (Inr False, print (SkipEncoding p) w)
   \<and> (\<exists>ms. stdout (snd (normalize_line_endings p w)) = stdout w @ ms
           \<and> SkipEncoding q \<notin> set ms)"
proof -
  have 1: "latin1_decode bs \<noteq> None" by (simp add: latin1_decode_def)
  have 2: "decode_text bs \<noteq> None" using decode_text_total [of bs] by auto
  obtain ms where ms: "stdout (snd (normalize_line_endings p w)) = stdout w @ ms"
    "set ms \<subseteq> range (ErrorProcessing p)"
    using normalize_stdout by blast
  have 4: "SkipEncoding q \<notin> set ms" using ms(2) by auto
  have 3: "normalize_try p w \<noteq> (Inr False, print (SkipEncoding p) w)"
  proof
    assume "normalize_try p w = (Inr False, print (SkipEncoding p) w)"
    then have "normalize_line_endings p w = (False, print (SkipEncoding p) w)"
      by (simp add: normalize_line_endings_def)
    then have "ms = [SkipEncoding p]" using ms(1) by (simp add: print_def)
    then show False using ms(2) by auto
  qed
  show ?thesis using 1 2 3 ms(1) 4 by blast
qed

section \<open>Pruning and counters\<close>

text \<open>
  Claim C4. A directory below the start directory whose path has a component in
  \<open>EXCLUDED_DIRS\<close> is never yielded by the walk, no file under it is visited, \<open>main\<close> leaves
  every such file as it was, and the processed counter counts visited files only.
\<close>

theorem excluded_dirs_pruned:
  assumes "set rel \<inter> set EXCLUDED_DIRS \<noteq> {}"
  shows "start @ rel \<notin> fst ` set (os_walk start w)
       \<and> start @ rel @ [fn] \<notin> set (visited_files start w)
       \<and> files (snd (main start w)) (start @ rel @ [fn]) = files w (start @ rel @ [fn])
       \<and> processed_count (main_loop start w)
         = int (length (filter should_process_file (visited_files start w)))"
proof -
  have v: "start @ rel @ [fn] \<notin> set (visited_files start w)"
    using assms by (rule excluded_not_visited)
  have "processed_count (main_loop start w)
        = int (length (filter should_process_file (visited_files start w)))"
    by (simp add: main_loop_fold fold_visit_processed)
  then show ?thesis
    using excluded_not_walked [OF assms, of start w] v main_frame [OF v] by simp
qed

lemma demo_excluded: "set [str_of ''node_modules''] \<inter> set EXCLUDED_DIRS \<noteq> {}"
  by (simp add: EXCLUDED_DIRS_def)

lemma demo_visited:
  "visited_files [] demo
   = map (\<lambda>n. [str_of n]) [''locked.md'', ''a.txt'', ''latin.txt'', ''clean.py'']"
  by code_simp

theorem excluded_dirs_pruned_witness:
  "[str_of ''node_modules'', str_of ''x.js''] \<notin> set (visited_files [] demo)
   \<and> files (snd (main [] demo)) [str_of ''node_modules'', str_of ''x.js'']
     = files demo [str_of ''node_modules'', str_of ''x.js'']
   \<and> processed_count (main_loop [] demo) = 4"
proof -
  have "should_process_file [str_of ''locked.md'']" "should_process_file [str_of ''a.txt'']"
    "should_process_file [str_of ''latin.txt'']" "should_process_file [str_of ''clean.py'']"
    by code_simp+
  then have "int (length (filter should_process_file (visited_files [] demo))) = 4"
    unfolding demo_visited by simp
  then show ?thesis
    using excluded_dirs_pruned [OF demo_excluded, of "[]" demo "str_of ''x.js''"] by simp
qed

text \<open>
  Claim C9. Both counters start at zero; after any number of visited files
  \<open>0 \<le> changed \<le> processed\<close>; one visit raises each counter by 0 or 1 and raises
  \<open>changed\<close> by no more than it raises \<open>processed\<close>. The loop of \<open>main\<close> is this sequence of
  visits.
\<close>

theorem counters_invariant:
  "processed_count (fold (visit_file start) [] \<lparr>world = w, processed_count = 0, changed_count = 0\<rparr>) = 0
   \<and> changed_count (fold (visit_file start) [] \<lparr>world = w, processed_count = 0, changed_count = 0\<rparr>) = 0
   \<and> 0 \<le> changed_count (fold (visit_file start) (take k (visited_files start w))
                          \<lparr>world = w, processed_count = 0, changed_count = 0\<rparr>)
   \<and> changed_count (fold (visit_file start) (take k (visited_files start w))
                     \<lparr>world = w, processed_count = 0, changed_count = 0\<rparr>)
     \<le> processed_count (fold (visit_file start) (take k (visited_files start w))
                         \<lparr>world = w, processed_count = 0, changed_count = 0\<rparr>)
   \<and> processed_count (visit_file start p s) - processed_count s \<in> {0, 1}
   \<and> changed_count (visit_file start p s) - changed_count s \<in> {0, 1}
   \<and> changed_count (visit_file start p s) - changed_count s
     \<le> processed_count (visit_file start p s) - processed_count s
   \<and> main_loop start w
     = fold (visit_file start) (visited_files start w)
         \<lparr>world = w, processed_count = 0, changed_count = 0\<rparr>"
  using fold_visit_changed [of "\<lparr>world = w, processed_count = 0, changed_count = 0\<rparr>" start
      "take k (visited_files start w)"]
    visit_file_counters [of start p s] main_loop_fold [of start w]
  by simp

lemma normalize_try_Inl:
  assumes "normalize_try p w = (Inl e, w')"
  shows "w' = w" and "e \<noteq> UnicodeEncodeError"
proof -
  have enc: "utf8_encode (convert t) \<noteq> None" if "decode_text c = Some t" for c t
    using decode_text_encodable [OF that] encodable_convert [of t] by auto
  have orb: "e' \<noteq> UnicodeEncodeError" if "open_rb p w = Inl e'" for e'
    using that by (auto simp: open_rb_def split: option.splits if_splits)
  have owb: "e' \<noteq> UnicodeEncodeError" if "open_wb p w = Inl e'" for e'
    using that by (auto simp: open_wb_def split: option.splits if_splits)
  have "w' = w \<and> e \<noteq> UnicodeEncodeError"
  proof (cases "open_rb p w")
    case (Inl e')
    then show ?thesis using assms orb [OF Inl] by (simp add: normalize_try_def)
  next
    case (Inr f)
    obtain t where t: "decode_text (contents f) = Some t" using decode_text_total by blast
    show ?thesis
    proof (cases "convert t = t")
      case True
      then show ?thesis using assms Inr t by (simp add: normalize_try_def)
    next
      case False
      show ?thesis
      proof (cases "open_wb p w")
        case (Inl e')
        then show ?thesis using assms Inr t False owb [OF Inl] by (simp add: normalize_try_def)
      next
        case w1: (Inr w1)
        obtain data where "utf8_encode (convert t) = Some data" using enc [OF t] by auto
        then show ?thesis using assms Inr t False w1 by (simp add: normalize_try_def)
      qed
    qed
  qed
  then show "w' = w" and "e \<noteq> UnicodeEncodeError" by simp_all
qed

section \<open>The latin-1 fallback\<close>

lemma encode_below_256:
  "\<forall>c \<in> set t. c < 0x100 \<Longrightarrow>
   utf8_encode t
   = Some (concat (map (\<lambda>c. if c < 0x80 then [of_nat c]
                            else [of_nat (0xC0 + c div 64), of_nat (0x80 + c mod 64)]) t))"
proof (induction t)
  case Nil
  then show ?case by simp
next
  case (Cons c cs)
  have c: "c < 0x100" using Cons.prems by simp
  have e: "encode_cp c = Some (if c < 0x80 then [of_nat c]
                               else [of_nat (0xC0 + c div 64), of_nat (0x80 + c mod 64)])"
    using c by (simp add: encode_cp_def)
  show ?case using Cons e by simp
qed

lemma length_concat_two_byte:
  "length (concat (map (\<lambda>c. if c < 0x80 then [of_nat c :: byte]
                            else [of_nat (0xC0 + c div 64), of_nat (0x80 + c mod 64)]) t))
   = length t + length (filter (\<lambda>c. 0x80 \<le> c) t)"
  by (induction t) auto

lemma filter_hi_convert:
  "filter (\<lambda>c. 0x80 \<le> c) (convert s) = filter (\<lambda>c. 0x80 \<le> c) s"
  unfolding convert_eq by (induction s rule: crlf_to_lf.induct) auto

lemma convert_below_256:
  "\<forall>c \<in> set (convert (map unat (bs :: bytes))). c < 0x100"
proof
  fix c assume "c \<in> set (convert (map unat bs))"
  then have "c = 0x0A \<or> c \<in> set (map unat bs)" using set_convert [of "map unat bs"] by auto
  then show "c < 0x100"
  proof
    assume "c = 0x0A" then show ?thesis by simp
  next
    assume "c \<in> set (map unat bs)"
    then obtain b :: byte where "c = unat b" by auto
    then show ?thesis using unsigned_less [of b, where ?'a = nat] by simp
  qed
qed

lemma latin1_example:
  "utf8_decode [0xE9, 0x0D] = None"
  "utf8_encode (convert (map unat [0xE9, 0x0D :: byte])) = Some [0xC3, 0xA9, 0x0A]"
  by code_simp+

text \<open>
  Claim C6. When the bytes of a readable and writable file are not valid UTF-8 and hold a
  carriage return, the text is the latin-1 reading of the bytes and the file is rewritten
  with the UTF-8 encoding of the converted text: each code point from 0x80 on becomes two
  bytes, so the new length is the length of the converted text plus the number of bytes from
  0x80 on in the old contents. The bytes \<open>E9 0D\<close> become \<open>C3 A9 0A\<close>, which is longer.
\<close>

theorem latin1_fallback_reencodes:
  assumes "files w p = Some f" "readable f" "writable f"
    "utf8_decode (contents f) = None" "0x0D \<in> set (contents f)"
  shows "\<exists>f'. decode_text (contents f) = Some (map unat (contents f))
           \<and> normalize_line_endings p w = (True, w\<lparr>files := (files w)(p \<mapsto> f')\<rparr>)
           \<and> utf8_encode (convert (map unat (contents f))) = Some (contents f')
           \<and> contents f'
             = concat (map (\<lambda>c. if c < 0x80 then [of_nat c]
                                else [of_nat (0xC0 + c div 64), of_nat (0x80 + c mod 64)])
                        (convert (map unat (contents f))))
           \<and> length (contents f')
             = length (convert (map unat (contents f)))
               + length (filter (\<lambda>b. 0x80 \<le> unat b) (contents f))
           \<and> (contents f = [0xE9, 0x0D]
                \<longrightarrow> contents f' = [0xC3, 0xA9, 0x0A] \<and> length (contents f) < length (contents f'))"
proof -
  let ?t = "map unat (contents f)"
  let ?two = "\<lambda>c. if c < 0x80 then [of_nat c :: byte]
                   else [of_nat (0xC0 + c div 64), of_nat (0x80 + c mod 64)]"
  have dt: "decode_text (contents f) = Some ?t"
    using assms(4) by (simp add: decode_text_def latin1_decode_def)
  from assms(1,2,3,5) obtain t data where t: "decode_text (contents f) = Some t"
    and d: "utf8_encode (convert t) = Some data"
    and n: "normalize_line_endings p w =
       (True, w\<lparr>files := (files w)(p \<mapsto> f\<lparr>mtime := mtime f + 1, contents := data\<rparr>)\<rparr>)"
    by (rule rewrite_result)
  have tt: "t = ?t" using t dt by simp
  let ?f' = "f\<lparr>mtime := mtime f + 1, contents := data\<rparr>"
  have 3: "utf8_encode (convert ?t) = Some (contents ?f')" using d tt by simp
  have 4: "contents ?f' = concat (map ?two (convert ?t))"
    using 3 encode_below_256 [OF convert_below_256 [of "contents f"]] by simp
  have "length (filter (\<lambda>c. 0x80 \<le> c) (convert ?t)) = length (filter (\<lambda>c. 0x80 \<le> c) ?t)"
    by (simp only: filter_hi_convert)
  also have "\<dots> = length (filter (\<lambda>b. 0x80 \<le> unat b) (contents f))"
    by (simp add: filter_map comp_def)
  finally have 5: "length (contents ?f')
        = length (convert ?t) + length (filter (\<lambda>b. 0x80 \<le> unat b) (contents f))"
    unfolding 4 length_concat_two_byte by simp
  have 6: "contents f = [0xE9, 0x0D]
           \<longrightarrow> contents ?f' = [0xC3, 0xA9, 0x0A] \<and> length (contents f) < length (contents ?f')"
  proof
    assume c: "contents f = [0xE9, 0x0D]"
    have "contents ?f' = [0xC3, 0xA9, 0x0A]"
      using 3 latin1_example(2) unfolding c by simp
    then show "contents ?f' = [0xC3, 0xA9, 0x0A] \<and> length (contents f) < length (contents ?f')"
      unfolding c by simp
  qed
  show ?thesis using dt n 3 4 5 6 by blast
qed

lemma demo_latin: "files demo [str_of ''latin.txt''] = Some (rw_file [0xE9, 0x0D])"
  by (simp add: demo_def demo_files_def str_of_def)

theorem latin1_fallback_reencodes_witness:
  "\<exists>f'. normalize_line_endings [str_of ''latin.txt''] demo
           = (True, demo\<lparr>files := (files demo)([str_of ''latin.txt''] \<mapsto> f')\<rparr>)
      \<and> contents f' = [0xC3, 0xA9, 0x0A]
      \<and> length (contents (rw_file [0xE9, 0x0D])) < length (contents f')"
  using latin1_fallback_reencodes [OF demo_latin] latin1_example(1)
  by (simp add: rw_file_def) blast

section \<open>One visit when print can raise\<close>

lemma print_io_ok: "can_print ev m \<Longrightarrow> print_io ev m w = Inr (print m w)"
  by (simp add: print_io_def)

lemma print_io_fail: "\<not> can_print ev m \<Longrightarrow> print_io ev m w = Inl (UnicodeEncodeError, w)"
  by (simp add: print_io_def)

lemma normalize_try_cases:
  obtains (raised) e where "normalize_try p w = (Inl e, w)"
  | (returned) r w' where "normalize_try p w = (Inr r, w')" "stdout w' = stdout w"
proof (cases "normalize_try p w")
  case (Pair x w')
  show ?thesis
  proof (cases x)
    case (Inl e)
    then have "normalize_try p w = (Inl e, w')" using Pair by simp
    then show ?thesis using raised normalize_try_Inl(1) by blast
  next
    case (Inr r)
    then have n: "normalize_line_endings p w = (r, w')"
      using Pair by (simp add: normalize_line_endings_def)
    obtain ms where ms: "stdout w' = stdout w @ ms" "set ms \<subseteq> range (ErrorProcessing p)"
      using normalize_stdout [of p w] n by auto
    have "ms = []"
    proof (cases p w rule: normalize_cases)
      case (unreadable e)
      then have "normalize_try p w = (Inl e, w)" by (simp add: normalize_try_def)
      then show ?thesis using Pair Inr by simp
    next
      case (clean f t)
      then show ?thesis using n ms(1) by simp
    next
      case (readonly f t)
      then have "open_rb p w = Inr f" by (simp add: open_rb_Inr)
      moreover have "open_wb p w = Inl PermissionError"
        using readonly by (simp add: open_wb_def)
      ultimately have "normalize_try p w = (Inl PermissionError, w)"
        using readonly by (simp add: normalize_try_def)
      then show ?thesis using Pair Inr by simp
    next
      case (rewrite f t data)
      then show ?thesis using n ms(1) by simp
    qed
    then show ?thesis using returned Pair Inr ms(1) by simp
  qed
qed

lemma normalize_io_raised:
  assumes "normalize_try p w = (Inl e, w')"
  shows "normalize_line_endings p w = (False, print (ErrorProcessing p e) w')"
    and "can_print ev (ErrorProcessing p e) \<Longrightarrow>
         normalize_line_endings_io ev p w = Inr (False, print (ErrorProcessing p e) w')"
    and "\<not> can_print ev (ErrorProcessing p e) \<Longrightarrow>
         normalize_line_endings_io ev p w = Inl (UnicodeEncodeError, w')"
  using assms
  by (simp_all add: normalize_line_endings_def normalize_line_endings_io_def
      print_io_ok print_io_fail)

lemma normalize_io_returned:
  assumes "normalize_try p w = (Inr r, w')"
  shows "normalize_line_endings p w = (r, w')"
    and "normalize_line_endings_io ev p w = Inr (r, w')"
  using assms by (simp_all add: normalize_line_endings_def normalize_line_endings_io_def)

lemma printed_self: "printed w w = []"
  by (simp add: printed_def)

lemma printed_print: "printed w (print m w) = [m]"
  by (simp add: printed_def print_def)

lemma printed_same: "stdout w' = stdout w \<Longrightarrow> printed w w' = []"
  by (simp add: printed_def)

lemma printed_print_same: "stdout w' = stdout w \<Longrightarrow> printed w (print m w') = [m]"
  by (simp add: printed_def print_def)

lemma printed_trans:
  assumes "stdout b = stdout a @ x" "stdout c = stdout b @ y"
  shows "printed a c = printed a b @ printed b c"
  using assms by (simp add: printed_def)

lemma visit_file_io_step:
  "visit_file_io ev start p s =
     (if list_all (can_print ev) (printed (world s) (world (visit_file start p s)))
      then Inr (visit_file start p s)
      else Inl (UnicodeEncodeError, snd (normalize_try p (world s))))"
proof (cases "should_process_file p")
  case False
  then show ?thesis by (simp add: visit_file_io_def visit_file_def printed_self)
next
  case True
  let ?s1 = "s\<lparr>processed_count := processed_count s + 1\<rparr>"
  have w1: "world ?s1 = world s" by simp
  show ?thesis
  proof (cases p "world s" rule: normalize_try_cases)
    case (raised e)
    let ?m = "ErrorProcessing p e"
    have v: "visit_file start p s = ?s1\<lparr>world := print ?m (world s)\<rparr>"
      using True normalize_io_raised(1) [OF raised]
      by (simp add: visit_file_def Let_def)
    have pr: "printed (world s) (world (visit_file start p s)) = [?m]"
      unfolding v by (simp add: printed_print)
    show ?thesis
    proof (cases "can_print ev ?m")
      case c: True
      have "visit_file_io ev start p s = Inr (?s1\<lparr>world := print ?m (world s)\<rparr>)"
        using True normalize_io_raised(2) [OF raised c]
        by (simp add: visit_file_io_def Let_def)
      then show ?thesis using c pr v by simp
    next
      case c: False
      have "visit_file_io ev start p s = Inl (UnicodeEncodeError, world s)"
        using True normalize_io_raised(3) [OF raised c]
        by (simp add: visit_file_io_def Let_def)
      then show ?thesis using c pr raised by simp
    qed
  next
    case (returned r w')
    note n = normalize_io_returned [OF returned(1)]
    show ?thesis
    proof (cases r)
      case False
      have v: "visit_file start p s = ?s1\<lparr>world := w'\<rparr>"
        using True n(1) False by (simp add: visit_file_def Let_def)
      have pr: "printed (world s) (world (visit_file start p s)) = []"
        unfolding v using returned(2) by (simp add: printed_same)
      have "visit_file_io ev start p s = Inr (?s1\<lparr>world := w'\<rparr>)"
        using True n(2) [of ev] False by (simp add: visit_file_io_def Let_def)
      then show ?thesis using pr v by simp
    next
      case r: True
      let ?m = "Normalized (drop (length start) p)"
      have v: "visit_file start p s
               = ?s1\<lparr>world := print ?m w', changed_count := changed_count ?s1 + 1\<rparr>"
        using True n(1) r by (simp add: visit_file_def Let_def)
      have pr: "printed (world s) (world (visit_file start p s)) = [?m]"
        unfolding v using returned(2) by (simp add: printed_print_same)
      show ?thesis
      proof (cases "can_print ev ?m")
        case c: True
        have "visit_file_io ev start p s
              = Inr (?s1\<lparr>world := print ?m w', changed_count := changed_count ?s1 + 1\<rparr>)"
          using True n(2) [of ev] r print_io_ok [OF c, of w']
          by (simp add: visit_file_io_def Let_def)
        then show ?thesis using c pr v by simp
      next
        case c: False
        have "visit_file_io ev start p s = Inl (UnicodeEncodeError, w')"
          using True n(2) [of ev] r print_io_fail [OF c, of w']
          by (simp add: visit_file_io_def Let_def)
        then show ?thesis using c pr returned(1) by simp
      qed
    qed
  qed
qed

section \<open>The loop when print can raise\<close>

lemma foreach_append:
  "foreach f (xs @ ys) s = (case foreach f xs s of Inl e \<Rightarrow> Inl e | Inr s' \<Rightarrow> foreach f ys s')"
  by (induction xs arbitrary: s) (auto split: sum.splits)

lemma foreach_map: "foreach f (map g xs) s = foreach (\<lambda>x. f (g x)) xs s"
  by (induction xs arbitrary: s) (auto split: sum.splits)

lemma foreach_visit_dir:
  "foreach (visit_dir_io ev start) ts s
   = foreach (visit_file_io ev start)
       (concat (map (\<lambda>(root, dirs, files). map (\<lambda>filename. root @ [filename]) files) ts)) s"
proof (induction ts arbitrary: s)
  case Nil
  then show ?case by simp
next
  case (Cons t ts)
  obtain root dirs fnames where t: "t = (root, dirs, fnames)" by (cases t)
  have d: "visit_dir_io ev start t s
           = foreach (visit_file_io ev start) (map (\<lambda>filename. root @ [filename]) fnames) s"
    unfolding t visit_dir_io_def by (simp add: foreach_map)
  show ?case
    using Cons.IH unfolding t
    by (simp add: foreach_append d [unfolded t] split: sum.splits)
qed

lemma main_loop_io_flat:
  "main_loop_io ev start w
   = foreach (visit_file_io ev start) (visited_files start w)
       \<lparr>world = w, processed_count = 0, changed_count = 0\<rparr>"
  by (simp add: main_loop_io_def visited_files_def foreach_visit_dir)

lemma visit_file_extends:
  "\<exists>ms. stdout (world (visit_file start p s)) = stdout (world s) @ ms"
proof (cases "should_process_file p")
  case False
  then show ?thesis by (simp add: visit_file_skip)
next
  case True
  obtain r w' where n: "normalize_line_endings p (world s) = (r, w')"
    by (cases "normalize_line_endings p (world s)")
  obtain ms where "stdout w' = stdout (world s) @ ms"
    using normalize_stdout [of p "world s"] n by auto
  then show ?thesis
    using True n by (cases r) (simp_all add: visit_file_def Let_def print_def)
qed

lemma fold_visit_extends:
  "\<exists>ms. stdout (world (fold (visit_file start) ps s)) = stdout (world s) @ ms"
proof (induction ps arbitrary: s)
  case Nil
  then show ?case by simp
next
  case (Cons p ps)
  obtain a where a: "stdout (world (visit_file start p s)) = stdout (world s) @ a"
    using visit_file_extends by blast
  obtain b where "stdout (world (fold (visit_file start) ps (visit_file start p s)))
                  = stdout (world (visit_file start p s)) @ b"
    using Cons.IH by blast
  then show ?case using a by simp
qed

lemma printed_fold_Cons:
  "printed (world s) (world (fold (visit_file start) (p # ps) s))
   = printed (world s) (world (visit_file start p s))
     @ printed (world (visit_file start p s))
         (world (fold (visit_file start) ps (visit_file start p s)))"
proof -
  obtain a where a: "stdout (world (visit_file start p s)) = stdout (world s) @ a"
    using visit_file_extends by blast
  obtain b where b: "stdout (world (fold (visit_file start) ps (visit_file start p s)))
                  = stdout (world (visit_file start p s)) @ b"
    using fold_visit_extends by blast
  show ?thesis using printed_trans [OF a b] by simp
qed

lemma foreach_visit_ok:
  "list_all (can_print ev) (printed (world s) (world (fold (visit_file start) ps s))) \<Longrightarrow>
   foreach (visit_file_io ev start) ps s = Inr (fold (visit_file start) ps s)"
proof (induction ps arbitrary: s)
  case Nil
  then show ?case by simp
next
  case (Cons p ps)
  let ?s' = "visit_file start p s"
  have 1: "list_all (can_print ev) (printed (world s) (world ?s'))"
    and 2: "list_all (can_print ev)
              (printed (world ?s') (world (fold (visit_file start) ps ?s')))"
    using Cons.prems unfolding printed_fold_Cons by simp_all
  have "visit_file_io ev start p s = Inr ?s'" using 1 by (simp add: visit_file_io_step)
  then show ?case using Cons.IH [OF 2] by simp
qed

lemma foreach_visit_fail:
  "\<not> list_all (can_print ev) (printed (world s) (world (fold (visit_file start) ps s))) \<Longrightarrow>
   \<exists>w'. foreach (visit_file_io ev start) ps s = Inl (UnicodeEncodeError, w')"
proof (induction ps arbitrary: s)
  case Nil
  then show ?case by (simp add: printed_self)
next
  case (Cons p ps)
  let ?s' = "visit_file start p s"
  show ?case
  proof (cases "list_all (can_print ev) (printed (world s) (world ?s'))")
    case False
    then have "visit_file_io ev start p s
               = Inl (UnicodeEncodeError, snd (normalize_try p (world s)))"
      by (simp add: visit_file_io_step)
    then show ?thesis by simp
  next
    case True
    then have v: "visit_file_io ev start p s = Inr ?s'" by (simp add: visit_file_io_step)
    have "\<not> list_all (can_print ev)
              (printed (world ?s') (world (fold (visit_file start) ps ?s')))"
      using Cons.prems True unfolding printed_fold_Cons by simp
    from Cons.IH [OF this] show ?thesis using v by simp
  qed
qed

section \<open>main when print and exists can raise\<close>

lemma exists_io_True:
  "exists_io ev start w = Inr True \<longleftrightarrow> start \<notin> set (no_access ev) \<and> path_exists start w"
  by (simp add: exists_io_def)

lemma exists_io_False:
  "exists_io ev start w = Inr False \<longleftrightarrow> start \<notin> set (no_access ev) \<and> \<not> path_exists start w"
  by (simp add: exists_io_def)

lemma main_io_raised:
  "exists_io ev start w = Inl (e, w0) \<Longrightarrow> main_io ev start w = Uncaught e w0"
  by (simp add: main_io_def)

lemma main_io_missing:
  assumes "exists_io ev start w = Inr False"
  shows "main_io ev start w
         = (if can_print ev (NoSuchDirectory start)
            then Exited 1 (print (NoSuchDirectory start) w)
            else Uncaught UnicodeEncodeError w)"
  using assms by (simp add: main_io_def print_io_def)

lemma printed_main:
  assumes "path_exists start w"
  shows "printed w (snd (main start w))
         = [Scanning start, Extensions, Excluding]
           @ printed (print Excluding (print Extensions (print (Scanning start) w)))
               (world (main_loop start
                         (print Excluding (print Extensions (print (Scanning start) w)))))
           @ [Summary
                (processed_count (main_loop start
                   (print Excluding (print Extensions (print (Scanning start) w)))))
                (changed_count (main_loop start
                   (print Excluding (print Extensions (print (Scanning start) w)))))
                (processed_count (main_loop start
                   (print Excluding (print Extensions (print (Scanning start) w))))
                 - changed_count (main_loop start
                   (print Excluding (print Extensions (print (Scanning start) w)))))]"
proof -
  let ?h = "print Excluding (print Extensions (print (Scanning start) w))"
  obtain ms where ms: "stdout (world (main_loop start ?h)) = stdout ?h @ ms"
    unfolding main_loop_fold using fold_visit_extends [of start _ "\<lparr>world = ?h, processed_count = 0, changed_count = 0\<rparr>"]
    by auto
  have h: "stdout ?h = stdout w @ [Scanning start, Extensions, Excluding]"
    by (simp add: print_def)
  have "printed ?h (world (main_loop start ?h)) = ms" using ms by (simp add: printed_def)
  then show ?thesis
    unfolding main_exists [OF assms] using ms h by (simp add: printed_def print_def)
qed

lemma main_loop_io_ok:
  assumes "list_all (can_print ev) (printed w (world (main_loop start w)))"
  shows "main_loop_io ev start w = Inr (main_loop start w)"
  using assms
    foreach_visit_ok [of ev "\<lparr>world = w, processed_count = 0, changed_count = 0\<rparr>" start
      "visited_files start w"]
  by (simp add: main_loop_io_flat main_loop_fold)

lemma main_loop_io_fail:
  assumes "\<not> list_all (can_print ev) (printed w (world (main_loop start w)))"
  shows "\<exists>w'. main_loop_io ev start w = Inl (UnicodeEncodeError, w')"
  using assms
    foreach_visit_fail [of ev "\<lparr>world = w, processed_count = 0, changed_count = 0\<rparr>" start
      "visited_files start w"]
  by (simp add: main_loop_io_flat main_loop_fold)

lemma main_io_ok:
  assumes "exists_io ev start w = Inr True"
    "list_all (can_print ev) (printed w (snd (main start w)))"
  shows "main_io ev start w = Exited 0 (snd (main start w))"
proof -
  let ?h = "print Excluding (print Extensions (print (Scanning start) w))"
  let ?S = "main_loop start ?h"
  let ?sm = "Summary (processed_count ?S) (changed_count ?S)
               (processed_count ?S - changed_count ?S)"
  have e: "path_exists start w" using assms(1) by (simp add: exists_io_True)
  have p: "can_print ev (Scanning start)" "can_print ev Extensions" "can_print ev Excluding"
    "list_all (can_print ev) (printed ?h (world ?S))" "can_print ev ?sm"
    using assms(2) unfolding printed_main [OF e] by simp_all
  have l: "main_loop_io ev start ?h = Inr ?S"
    using p(4) by (rule main_loop_io_ok)
  have "main_io ev start w = Exited 0 (print ?sm (world ?S))"
    using assms(1) p(1,2,3,5) l by (simp add: main_io_def print_io_def)
  then show ?thesis unfolding main_exists [OF e] by simp
qed

lemma main_io_fail:
  assumes "exists_io ev start w = Inr True"
    "\<not> list_all (can_print ev) (printed w (snd (main start w)))"
  shows "\<exists>w'. main_io ev start w = Uncaught UnicodeEncodeError w'"
proof -
  let ?h = "print Excluding (print Extensions (print (Scanning start) w))"
  let ?S = "main_loop start ?h"
  let ?sm = "Summary (processed_count ?S) (changed_count ?S)
               (processed_count ?S - changed_count ?S)"
  have e: "path_exists start w" using assms(1) by (simp add: exists_io_True)
  have n: "\<not> (can_print ev (Scanning start) \<and> can_print ev Extensions
              \<and> can_print ev Excluding
              \<and> list_all (can_print ev) (printed ?h (world ?S)) \<and> can_print ev ?sm)"
    using assms(2) unfolding printed_main [OF e] by simp
  show ?thesis
  proof (cases "can_print ev (Scanning start) \<and> can_print ev Extensions
                \<and> can_print ev Excluding")
    case False
    then show ?thesis using assms(1) by (auto simp: main_io_def print_io_def)
  next
    case True
    show ?thesis
    proof (cases "list_all (can_print ev) (printed ?h (world ?S))")
      case l: False
      obtain w' where "main_loop_io ev start ?h = Inl (UnicodeEncodeError, w')"
        using main_loop_io_fail [OF l] by blast
      then show ?thesis using assms(1) True by (simp add: main_io_def print_io_def)
    next
      case l: True
      then have s: "\<not> can_print ev ?sm" using n True by simp
      have "main_loop_io ev start ?h = Inr ?S"
        using l by (rule main_loop_io_ok)
      then show ?thesis using assms(1) True s by (simp add: main_io_def print_io_def)
    qed
  qed
qed

lemma main_summary_last:
  "path_exists start w \<Longrightarrow> \<exists>n c. last (stdout (snd (main start w))) = Summary n c (n - c)"
  by (subst main_exists) (auto simp: print_def)

end
